theory Spec2Isabelle
  imports Main "HOL-Library.AList"
begin

section \<open>Card memory helper: grid, lock and history manager\<close>

text \<open>
  A shallow embedding of the state handlers of the component \<open>CardMemoryHelper\<close>
  (the version of the component that has the lock set: \<open>lockedCells\<close>,
  \<open>findMatchingCard\<close>, \<open>handleDoubleClick\<close>).

  Every handler of the source reads the state of the current render from its closure
  and queues functional updates; one event is handled per render, so a handler is a
  function from the state before the event to the state after it.

  A JavaScript object whose keys are not canonical array indices enumerates its own
  properties in insertion order: \<open>{...prev, [k]: v}\<close> keeps the position of a key that
  is already present and appends a new one, \<open>delete\<close> removes the key. Such an object
  is an association list with \<open>AList.update\<close>, \<open>AList.delete\<close> and \<open>map_of\<close>. The
  cell keys that the component renders are the strings \<open>cell-0\<close>, \<open>cell-1\<close>, ...:
  they are never array indices and never names found on \<open>Object.prototype\<close>.
\<close>

subsection \<open>Data model\<close>

datatype LucideIcon = Wine | Anchor | Music | Ship | Gem | Search | Sparkles | Compass | Lock

record CardIcon =
  id_c :: string
  Icon :: LucideIcon
  color :: string

datatype ActionType = Add | Remove | Replace

record HistoryAction =
  type_h :: ActionType
  cellId :: string
  card_h :: CardIcon
  previousCard :: "CardIcon option"
  lockedCellId :: "string option"
  wasLocked :: "bool option"

type_synonym GridState = "(string \<times> CardIcon) list"

type_synonym LockedCells = "(string \<times> bool) list"

record State =
  rows :: int
  cols :: int
  grid :: GridState
  lockedCells :: LockedCells
  history :: "HistoryAction list"
  showWarning :: bool
  pendingLayout :: "(int \<times> int) option"
  activeCard :: "CardIcon option"
  selectedCard :: "CardIcon option"

definition CARD_ICONS :: "CardIcon list" where
  "CARD_ICONS =
    [\<lparr>id_c = ''wine'', Icon = Wine, color = ''bg-red-500''\<rparr>,
     \<lparr>id_c = ''anchor'', Icon = Anchor, color = ''bg-pink-500''\<rparr>,
     \<lparr>id_c = ''music'', Icon = Music, color = ''bg-yellow-500''\<rparr>,
     \<lparr>id_c = ''ship'', Icon = Ship, color = ''bg-purple-600''\<rparr>,
     \<lparr>id_c = ''gem'', Icon = Gem, color = ''bg-green-500''\<rparr>,
     \<lparr>id_c = ''compass'', Icon = Compass, color = ''bg-orange-500''\<rparr>,
     \<lparr>id_c = ''search'', Icon = Search,
       color = ''bg-gradient-to-r from-fuchsia-500 to-cyan-500''\<rparr>,
     \<lparr>id_c = ''sparkles'', Icon = Sparkles,
       color = ''bg-gradient-to-r from-fuchsia-500 to-cyan-500''\<rparr>,
     \<lparr>id_c = ''sailboat'', Icon = Ship,
       color = ''bg-gradient-to-r from-fuchsia-500 to-cyan-500''\<rparr>]"

definition PRESET_LAYOUTS :: "(int \<times> int) list" where
  "PRESET_LAYOUTS = [(2, 4), (2, 5), (2, 7), (2, 8), (3, 4), (3, 6), (3, 8)]"

text \<open>The state of the first render: the initial values of the \<open>useState\<close> calls.\<close>

definition initState :: State where
  "initState = \<lparr>rows = 2, cols = 4, grid = [], lockedCells = [], history = [],
     showWarning = False, pendingLayout = None, activeCard = None, selectedCard = None\<rparr>"

subsection \<open>Truthiness\<close>

text \<open>
  \<open>lockedCells[cellId]\<close> in a condition: truthy exactly when the key is present with
  the value \<open>true\<close>.
\<close>

definition isLocked :: "LockedCells \<Rightarrow> string \<Rightarrow> bool" where
  "isLocked l c = (map_of l c = Some True)"

text \<open>
  A cell key or \<open>null\<close> in a condition (\<open>if (matchingCellId)\<close>,
  \<open>lockedMatchingCellId || undefined\<close>): \<open>null\<close>, \<open>undefined\<close> and the empty string are
  falsy. The result is the key when it is truthy.
\<close>

fun truthyId :: "string option \<Rightarrow> string option" where
  "truthyId None = None"
| "truthyId (Some c) = (if c = [] then None else Some c)"

subsection \<open>The matching searches\<close>

text \<open>
  \<open>findMatchingCard\<close>: the loop over \<open>Object.entries(grid)\<close> returns the key of the
  first entry, other than the excluded cell, that holds a card with the given id and is
  not locked; \<open>null\<close> when the loop ends.
\<close>

fun findMatchingCard :: "GridState \<Rightarrow> LockedCells \<Rightarrow> string \<Rightarrow> string \<Rightarrow> string option" where
  "findMatchingCard [] l cardId excludeCellId = None"
| "findMatchingCard ((c, cellCard) # es) l cardId excludeCellId =
     (if c \<noteq> excludeCellId \<and> id_c cellCard = cardId \<and> \<not> isLocked l c then Some c
      else findMatchingCard es l cardId excludeCellId)"

text \<open>\<open>findLockedMatchingCard\<close>: the same loop, for an entry that is locked.\<close>

fun findLockedMatchingCard :: "GridState \<Rightarrow> LockedCells \<Rightarrow> string \<Rightarrow> string \<Rightarrow> string option" where
  "findLockedMatchingCard [] l cardId excludeCellId = None"
| "findLockedMatchingCard ((c, cellCard) # es) l cardId excludeCellId =
     (if c \<noteq> excludeCellId \<and> id_c cellCard = cardId \<and> isLocked l c then Some c
      else findLockedMatchingCard es l cardId excludeCellId)"

subsection \<open>Placing a card\<close>

definition handleCardClick :: "CardIcon \<Rightarrow> State \<Rightarrow> State" where
  "handleCardClick k s =
     s\<lparr>selectedCard :=
         (case selectedCard s of
            None \<Rightarrow> Some k
          | Some prev \<Rightarrow> if id_c prev = id_c k then None else Some k)\<rparr>"

text \<open>The history entry of a placement: \<open>replace\<close> when the cell held a card.\<close>

definition placeEntry :: "string \<Rightarrow> CardIcon \<Rightarrow> CardIcon option \<Rightarrow> string option \<Rightarrow> HistoryAction" where
  "placeEntry c k prev partner =
     \<lparr>type_h = (if prev \<noteq> None then Replace else Add), cellId = c, card_h = k,
      previousCard = prev, lockedCellId = partner, wasLocked = Some False\<rparr>"

definition handleCellClick :: "string \<Rightarrow> State \<Rightarrow> State" where
  "handleCellClick c s =
     (case selectedCard s of
        None \<Rightarrow> s
      | Some sel \<Rightarrow>
          if isLocked (lockedCells s) c then s
          else
            let prev = map_of (grid s) c;
                g = AList.update c sel (grid s)
            in if id_c sel = ''lock'' then
                 s\<lparr>grid := g,
                   lockedCells := AList.update c True (lockedCells s),
                   history := history s @ [placeEntry c sel prev None],
                   selectedCard := None\<rparr>
               else
                 (case truthyId (findMatchingCard (grid s) (lockedCells s) (id_c sel) c) of
                    Some m \<Rightarrow>
                      s\<lparr>grid := g,
                        lockedCells := AList.update m True (AList.update c True (lockedCells s)),
                        history := history s @ [placeEntry c sel prev (Some m)],
                        selectedCard := None\<rparr>
                  | None \<Rightarrow>
                      s\<lparr>grid := g,
                        history := history s @ [placeEntry c sel prev None],
                        selectedCard := None\<rparr>))"

definition handleDragStart :: "string \<Rightarrow> State \<Rightarrow> State" where
  "handleDragStart activeId s =
     s\<lparr>activeCard := find (\<lambda>k. id_c k = activeId) CARD_ICONS, selectedCard := None\<rparr>"

text \<open>
  \<open>handleDragEnd\<close>: \<open>activeId\<close> is \<open>event.active.id\<close>, \<open>over\<close> is the key of the
  cell under the pointer, \<open>None\<close> when the card is released outside the grid.
\<close>

definition handleDragEnd :: "string \<Rightarrow> string option \<Rightarrow> State \<Rightarrow> State" where
  "handleDragEnd activeId over s =
     (case over of
        None \<Rightarrow> s\<lparr>activeCard := None\<rparr>
      | Some c \<Rightarrow>
          (case find (\<lambda>k. id_c k = activeId) CARD_ICONS of
             None \<Rightarrow> s\<lparr>activeCard := None\<rparr>
           | Some k \<Rightarrow>
               if isLocked (lockedCells s) c then s\<lparr>activeCard := None\<rparr>
               else
                 let prev = map_of (grid s) c;
                     g = AList.update c k (grid s)
                 in if id_c k = ''lock'' then
                      s\<lparr>grid := g,
                        lockedCells := AList.update c True (lockedCells s),
                        history := history s @ [placeEntry c k prev None],
                        activeCard := None\<rparr>
                    else
                      (case truthyId (findMatchingCard (grid s) (lockedCells s) (id_c k) c) of
                         Some m \<Rightarrow>
                           s\<lparr>grid := g,
                             lockedCells :=
                               AList.update m True (AList.update c True (lockedCells s)),
                             history := history s @ [placeEntry c k prev (Some m)],
                             activeCard := None\<rparr>
                       | None \<Rightarrow>
                           s\<lparr>grid := g,
                             history := history s @ [placeEntry c k prev None],
                             activeCard := None\<rparr>)))"

subsection \<open>Removing, unlocking, undoing\<close>

definition handleRemoveCard :: "string \<Rightarrow> State \<Rightarrow> State" where
  "handleRemoveCard c s =
     (case map_of (grid s) c of
        None \<Rightarrow> s
      | Some k \<Rightarrow>
          if isLocked (lockedCells s) c then s
          else
            let lockedMatchingCellId =
                  truthyId (findLockedMatchingCard (grid s) (lockedCells s) (id_c k) c)
            in s\<lparr>grid := AList.delete c (grid s),
                 lockedCells :=
                   (case lockedMatchingCellId of
                      Some m \<Rightarrow> AList.delete m (lockedCells s)
                    | None \<Rightarrow> lockedCells s),
                 history := history s @
                   [\<lparr>type_h = Remove, cellId = c, card_h = k, previousCard = None,
                     lockedCellId = lockedMatchingCellId, wasLocked = Some False\<rparr>]\<rparr>)"

definition handleDoubleClick :: "string \<Rightarrow> State \<Rightarrow> State" where
  "handleDoubleClick c s =
     (if isLocked (lockedCells s) c then
        let newLocked = AList.delete c (lockedCells s)
        in s\<lparr>lockedCells :=
               (case map_of (grid s) c of
                  None \<Rightarrow> newLocked
                | Some k \<Rightarrow>
                    if id_c k \<noteq> ''lock'' then
                      (case truthyId (findLockedMatchingCard (grid s) (lockedCells s) (id_c k) c) of
                         Some m \<Rightarrow> AList.delete m newLocked
                       | None \<Rightarrow> newLocked)
                    else newLocked)\<rparr>
      else s)"

text \<open>
  The lock updates of the \<open>add\<close> and \<open>replace\<close> branches of \<open>handleUndo\<close>: the two
  branches hold the same code.
\<close>

definition undoLocks :: "HistoryAction \<Rightarrow> LockedCells \<Rightarrow> LockedCells" where
  "undoLocks a l =
     (case truthyId (lockedCellId a) of
        Some m \<Rightarrow> AList.delete m (AList.delete (cellId a) l)
      | None \<Rightarrow>
          if id_c (card_h a) = ''lock'' \<or> wasLocked a \<noteq> None then AList.delete (cellId a) l
          else l)"

definition handleUndo :: "State \<Rightarrow> State" where
  "handleUndo s =
     (if length (history s) = 0 then s
      else
        let lastAction = last (history s);
            s' =
              (case type_h lastAction of
                 Add \<Rightarrow>
                   s\<lparr>grid := AList.delete (cellId lastAction) (grid s),
                     lockedCells := undoLocks lastAction (lockedCells s)\<rparr>
               | Remove \<Rightarrow>
                   s\<lparr>grid := AList.update (cellId lastAction) (card_h lastAction) (grid s),
                     lockedCells :=
                       (if wasLocked lastAction = Some True
                        then AList.update (cellId lastAction) True (lockedCells s)
                        else lockedCells s)\<rparr>
               | Replace \<Rightarrow>
                   (case previousCard lastAction of
                      None \<Rightarrow> s
                    | Some p \<Rightarrow>
                        s\<lparr>grid := AList.update (cellId lastAction) p (grid s),
                          lockedCells := undoLocks lastAction (lockedCells s)\<rparr>))
        in s'\<lparr>history := butlast (history s)\<rparr>)"

definition handleReset :: "State \<Rightarrow> State" where
  "handleReset s = s\<lparr>grid := [], lockedCells := [], history := [], selectedCard := None\<rparr>"

subsection \<open>Layout\<close>

definition hasCards :: "State \<Rightarrow> bool" where
  "hasCards s = (length (map fst (grid s)) > 0)"

definition handleLayoutChange :: "int \<Rightarrow> int \<Rightarrow> State \<Rightarrow> State" where
  "handleLayoutChange newRows newCols s =
     (if hasCards s then s\<lparr>showWarning := True, pendingLayout := Some (newRows, newCols)\<rparr>
      else s\<lparr>rows := newRows, cols := newCols\<rparr>)"

definition confirmLayoutChange :: "State \<Rightarrow> State" where
  "confirmLayoutChange s =
     (let s' =
        (case pendingLayout s of
           None \<Rightarrow> s
         | Some (r, c) \<Rightarrow>
             s\<lparr>rows := r, cols := c, grid := [], lockedCells := [], history := [],
               selectedCard := None\<rparr>)
      in s'\<lparr>showWarning := False, pendingLayout := None\<rparr>)"

text \<open>The handler of the cancel button of the warning dialog.\<close>

definition cancelLayoutChange :: "State \<Rightarrow> State" where
  "cancelLayoutChange s = s\<lparr>showWarning := False, pendingLayout := None\<rparr>"

text \<open>
  The \<open>onChange\<close> handlers of the two number fields: \<open>parseInt(e.target.value) || 1\<close>.
  The argument is the result of \<open>parseInt\<close>, \<open>None\<close> for \<open>NaN\<close>; \<open>NaN\<close> and \<open>0\<close> are
  falsy.
\<close>

fun orOne :: "int option \<Rightarrow> int" where
  "orOne None = 1"
| "orOne (Some n) = (if n = 0 then 1 else n)"

definition onRowsChange :: "int option \<Rightarrow> State \<Rightarrow> State" where
  "onRowsChange parsed s = handleLayoutChange (orOne parsed) (cols s) s"

definition onColsChange :: "int option \<Rightarrow> State \<Rightarrow> State" where
  "onColsChange parsed s = handleLayoutChange (rows s) (orOne parsed) s"

subsection \<open>Events\<close>

text \<open>The events of the user interface, each bound to one handler.\<close>

datatype Event =
    CardClick CardIcon
  | CellClick string
  | DragStart string
  | DragEnd string "string option"
  | RemoveCard string
  | DoubleClick string
  | Undo
  | Reset
  | LayoutChange int int
  | ConfirmLayout
  | CancelLayout

fun step :: "State \<Rightarrow> Event \<Rightarrow> State" where
  "step s (CardClick k) = handleCardClick k s"
| "step s (CellClick c) = handleCellClick c s"
| "step s (DragStart a) = handleDragStart a s"
| "step s (DragEnd a over) = handleDragEnd a over s"
| "step s (RemoveCard c) = handleRemoveCard c s"
| "step s (DoubleClick c) = handleDoubleClick c s"
| "step s Undo = handleUndo s"
| "step s Reset = handleReset s"
| "step s (LayoutChange r c) = handleLayoutChange r c s"
| "step s ConfirmLayout = confirmLayoutChange s"
| "step s CancelLayout = cancelLayoutChange s"

definition run :: "State \<Rightarrow> Event list \<Rightarrow> State" where
  "run s es = foldl step s es"

subsection \<open>Vocabulary of the properties\<close>

text \<open>The conditions of the two search loops, as predicates on an entry of the grid.\<close>

definition unlockedMatch :: "LockedCells \<Rightarrow> string \<Rightarrow> string \<Rightarrow> string \<times> CardIcon \<Rightarrow> bool" where
  "unlockedMatch l cardId excludeCellId e =
     (fst e \<noteq> excludeCellId \<and> id_c (snd e) = cardId \<and> \<not> isLocked l (fst e))"

definition lockedMatch :: "LockedCells \<Rightarrow> string \<Rightarrow> string \<Rightarrow> string \<times> CardIcon \<Rightarrow> bool" where
  "lockedMatch l cardId excludeCellId e =
     (fst e \<noteq> excludeCellId \<and> id_c (snd e) = cardId \<and> isLocked l (fst e))"

text \<open>
  The entry at position \<open>i\<close> is the first one, in the order of the list, that satisfies
  \<open>P\<close>.
\<close>

definition firstAt :: "('a \<Rightarrow> bool) \<Rightarrow> 'a list \<Rightarrow> nat \<Rightarrow> bool" where
  "firstAt P xs i = (i < length xs \<and> P (xs ! i) \<and> (\<forall>j<i. \<not> P (xs ! j)))"

text \<open>
  Pairing symmetry: every locked cell holds a card, and that card is the lock token or
  another locked cell holds a card with the same id.
\<close>

definition pairingSymmetry :: "State \<Rightarrow> bool" where
  "pairingSymmetry s =
     (\<forall>c. isLocked (lockedCells s) c \<longrightarrow>
        (\<exists>k. map_of (grid s) c = Some k
          \<and> (id_c k = ''lock''
             \<or> (\<exists>c' k'. c' \<noteq> c \<and> map_of (grid s) c' = Some k' \<and> id_c k' = id_c k
                  \<and> isLocked (lockedCells s) c'))))"

text \<open>The locked cells that hold a card with a given id.\<close>

definition lockedWith :: "GridState \<Rightarrow> LockedCells \<Rightarrow> string \<Rightarrow> string set" where
  "lockedWith g l X = {c. isLocked l c \<and> (\<exists>k. map_of g c = Some k \<and> id_c k = X)}"

text \<open>
  The invariant behind pairing symmetry: the keys of the grid are distinct and not
  empty, a locked cell is occupied, and for every id other than that of the lock token
  the number of locked cells holding it is even.
\<close>

definition pairInv :: "GridState \<Rightarrow> LockedCells \<Rightarrow> bool" where
  "pairInv g l =
     (distinct (map fst g) \<and> [] \<notin> fst ` set g
      \<and> (\<forall>c. isLocked l c \<longrightarrow> map_of g c \<noteq> None)
      \<and> (\<forall>X. X \<noteq> ''lock'' \<longrightarrow> even (card (lockedWith g l X))))"

text \<open>Every value stored in the lock object is \<open>true\<close>, as the handlers write it.\<close>

definition onlyTrue :: "LockedCells \<Rightarrow> bool" where
  "onlyTrue l = (\<forall>e \<in> set l. snd e)"

text \<open>
  The undo of one history entry, as \<open>handleUndo\<close> applies it to the grid and to the
  lock set.
\<close>

definition undoGrid :: "HistoryAction \<Rightarrow> GridState \<Rightarrow> GridState" where
  "undoGrid a g =
     (case type_h a of
        Add \<Rightarrow> AList.delete (cellId a) g
      | Remove \<Rightarrow> AList.update (cellId a) (card_h a) g
      | Replace \<Rightarrow>
          (case previousCard a of None \<Rightarrow> g | Some p \<Rightarrow> AList.update (cellId a) p g))"

definition undoLockSet :: "HistoryAction \<Rightarrow> LockedCells \<Rightarrow> LockedCells" where
  "undoLockSet a l =
     (case type_h a of
        Add \<Rightarrow> undoLocks a l
      | Remove \<Rightarrow> (if wasLocked a = Some True then AList.update (cellId a) True l else l)
      | Replace \<Rightarrow> (case previousCard a of None \<Rightarrow> l | Some p \<Rightarrow> undoLocks a l))"

text \<open>
  A history entry still describes the locks: the cell of a removal is unlocked; the
  cell and the recorded partner of a placement are both locked and hold cards with the
  same id; the cell of a placement with no partner is unlocked or holds the lock token.
\<close>

definition entryIntact :: "HistoryAction \<Rightarrow> GridState \<Rightarrow> LockedCells \<Rightarrow> bool" where
  "entryIntact a g l =
     (cellId a \<noteq> [] \<and>
      (case type_h a of
         Remove \<Rightarrow> wasLocked a \<noteq> Some True \<and> \<not> isLocked l (cellId a)
       | _ \<Rightarrow>
           wasLocked a \<noteq> None \<and>
           (case truthyId (lockedCellId a) of
              Some m \<Rightarrow>
                m \<noteq> cellId a \<and> isLocked l (cellId a) \<and> isLocked l m
                \<and> (\<exists>k k'. map_of g (cellId a) = Some k \<and> map_of g m = Some k'
                      \<and> id_c k = id_c k')
            | None \<Rightarrow>
                \<not> isLocked l (cellId a)
                \<or> (\<exists>k. map_of g (cellId a) = Some k \<and> id_c k = ''lock''))))"

text \<open>
  The entries of a list, the most recent first, can be undone one after the other, each
  one intact when its turn comes.
\<close>

fun unwindOK :: "HistoryAction list \<Rightarrow> GridState \<Rightarrow> LockedCells \<Rightarrow> bool" where
  "unwindOK [] g l = True"
| "unwindOK (a # hs) g l = (entryIntact a g l \<and> unwindOK hs (undoGrid a g) (undoLockSet a l))"

text \<open>The event is a double click on a locked cell: it unlocks.\<close>

definition unlocksCell :: "State \<Rightarrow> Event \<Rightarrow> bool" where
  "unlocksCell s e = (case e of DoubleClick c \<Rightarrow> isLocked (lockedCells s) c | _ \<Rightarrow> False)"

text \<open>
  The removal of the card of cell \<open>c\<close> takes effect and its search finds a locked cell
  holding a card with the same id.
\<close>

definition removeFindsLocked :: "State \<Rightarrow> string \<Rightarrow> bool" where
  "removeFindsLocked s c =
     (case map_of (grid s) c of
        None \<Rightarrow> False
      | Some k \<Rightarrow>
          \<not> isLocked (lockedCells s) c
          \<and> truthyId (findLockedMatchingCard (grid s) (lockedCells s) (id_c k) c) \<noteq> None)"

text \<open>
  The traces for which pairing symmetry is shown. The number \<open>n\<close> counts the history
  entries recorded since the last double click that unlocked a cell (all of them when
  there was none). Cell keys are not the empty string, a removal finds no locked cell
  with the same id, and an undo finds the history empty or undoes one of these \<open>n\<close>
  entries.
\<close>

fun pairingEvent :: "nat \<Rightarrow> State \<Rightarrow> Event \<Rightarrow> bool" where
  "pairingEvent n s (CellClick c) = (c \<noteq> [])"
| "pairingEvent n s (DragEnd a over) = (over \<noteq> Some [])"
| "pairingEvent n s (RemoveCard c) = (\<not> removeFindsLocked s c)"
| "pairingEvent n s Undo = (0 < n \<or> history s = [])"
| "pairingEvent n s e = True"

definition undoDepth :: "nat \<Rightarrow> State \<Rightarrow> Event \<Rightarrow> nat" where
  "undoDepth n s e =
     (if unlocksCell s e \<or> history (step s e) = [] then 0
      else if e = Undo then n - 1
      else n + (length (history (step s e)) - length (history s)))"

fun pairingTrace :: "nat \<Rightarrow> State \<Rightarrow> Event list \<Rightarrow> bool" where
  "pairingTrace n s [] = True"
| "pairingTrace n s (e # es) =
     (pairingEvent n s e \<and> pairingTrace (undoDepth n s e) (step s e) es)"

text \<open>
  The events of a trace with no removal and no double click, on cells whose key is not
  the empty string: selecting, placing by click or by drag, undoing, resetting and
  changing the layout.
\<close>

fun placeUndoEvent :: "Event \<Rightarrow> bool" where
  "placeUndoEvent (CellClick c) = (c \<noteq> [])"
| "placeUndoEvent (DragEnd a over) = (over \<noteq> Some [])"
| "placeUndoEvent (RemoveCard c) = False"
| "placeUndoEvent (DoubleClick c) = False"
| "placeUndoEvent e = True"

text \<open>
  The invariant of these traces: the pairing invariant, a lock object that holds only
  the value \<open>true\<close>, and the \<open>n\<close> most recent history entries can be undone in turn.
\<close>

definition traceInv :: "nat \<Rightarrow> State \<Rightarrow> bool" where
  "traceInv n s =
     (pairInv (grid s) (lockedCells s) \<and> onlyTrue (lockedCells s)
      \<and> n \<le> length (history s)
      \<and> unwindOK (take n (rev (history s))) (grid s) (lockedCells s))"

subsection \<open>Example cards and traces\<close>

definition wineCard :: CardIcon where
  "wineCard = \<lparr>id_c = ''wine'', Icon = Wine, color = ''bg-red-500''\<rparr>"

definition anchorCard :: CardIcon where
  "anchorCard = \<lparr>id_c = ''anchor'', Icon = Anchor, color = ''bg-pink-500''\<rparr>"

text \<open>The wine card is selected on the empty grid.\<close>

definition selectedOnEmpty :: State where
  "selectedOnEmpty = run initState [CardClick wineCard]"

text \<open>One wine card lies on \<open>cell-0\<close> and the wine card is selected again.\<close>

definition oneWineSelected :: State where
  "oneWineSelected = run initState [CardClick wineCard, CellClick ''cell-0'', CardClick wineCard]"

text \<open>Two wine cards placed by click on the first two cells: the two cells are paired.\<close>

definition pairedState :: State where
  "pairedState =
     run initState
       [CardClick wineCard, CellClick ''cell-0'', CardClick wineCard, CellClick ''cell-1'']"

text \<open>
  A third wine card on \<open>cell-2\<close>: it finds no unlocked partner and stays unlocked, beside
  the locked pair on \<open>cell-0\<close> and \<open>cell-1\<close>.
\<close>

definition placeThreeWines :: "Event list" where
  "placeThreeWines =
     [CardClick wineCard, CellClick ''cell-0'', CardClick wineCard, CellClick ''cell-1'',
      CardClick wineCard, CellClick ''cell-2'']"

text \<open>
  A trace with every kind of event: the two placements and the undo of the scenario of
  the specification, a second pairing, an anchor card placed, removed (no locked anchor
  card exists) and restored by undo, a double click that unlocks the pair, and a
  placement after it that is undone and made again.
\<close>

definition mixedTrace :: "Event list" where
  "mixedTrace =
     [CardClick wineCard, CellClick ''cell-0'', CardClick wineCard, CellClick ''cell-1'', Undo,
      CardClick wineCard, CellClick ''cell-1'',
      CardClick anchorCard, CellClick ''cell-2'', RemoveCard ''cell-2'', Undo,
      DoubleClick ''cell-0'',
      CardClick wineCard, CellClick ''cell-3'', Undo,
      CardClick wineCard, CellClick ''cell-3'']"

section \<open>Basic facts\<close>

subsection \<open>Locks and truthiness\<close>

lemma isLocked_update:
  "isLocked (AList.update a True l) x = (x = a \<or> isLocked l x)"
  by (auto simp: isLocked_def AList.update_conv')

lemma isLocked_delete:
  "isLocked (AList.delete a l) x = (x \<noteq> a \<and> isLocked l x)"
  by (auto simp: isLocked_def AList.delete_conv')

lemma truthyId_SomeD: "truthyId x = Some m \<Longrightarrow> x = Some m \<and> m \<noteq> []"
  by (cases x) (auto split: if_splits)

lemma keys_update: "fst ` set (AList.update c k g) = insert c (fst ` set g)"
  by (simp add: AList.dom_update)

lemma delete_after_update:
  "c \<notin> fst ` set al \<Longrightarrow> AList.delete c (AList.update c v al) = al"
  by (simp add: AList.delete_update_same)

lemma unlocked_absent:
  assumes "onlyTrue l" and "\<not> isLocked l c"
  shows "c \<notin> fst ` set l"
proof
  assume "c \<in> fst ` set l"
  then obtain b where "map_of l c = Some b"
    by (metis map_of_eq_None_iff not_Some_eq)
  moreover from this have "(c, b) \<in> set l"
    by (rule map_of_SomeD)
  then have "b"
    using assms(1) by (auto simp: onlyTrue_def)
  ultimately show False
    using assms(2) by (simp add: isLocked_def)
qed

subsection \<open>The search loops return the first match\<close>

lemma findMatchingCard_find:
  "findMatchingCard g l cardId ex = map_option fst (find (unlockedMatch l cardId ex) g)"
  by (induction g) (auto simp: unlockedMatch_def)

lemma findLockedMatchingCard_find:
  "findLockedMatchingCard g l cardId ex = map_option fst (find (lockedMatch l cardId ex) g)"
  by (induction g) (auto simp: lockedMatch_def)

lemma find_firstAt: "firstAt P xs i \<Longrightarrow> find P xs = Some (xs ! i)"
  unfolding firstAt_def by (subst find_Some_iff) blast

lemma find_none: "\<forall>e \<in> set xs. \<not> P e \<Longrightarrow> find P xs = None"
  by (simp add: find_None_iff)

lemma findMatchingCard_SomeD:
  "findMatchingCard g l X ex = Some m \<Longrightarrow>
   m \<noteq> ex \<and> \<not> isLocked l m \<and> (\<exists>k'. (m, k') \<in> set g \<and> id_c k' = X)"
  by (induction g) (auto split: if_splits)

lemma findLockedMatchingCard_SomeD:
  "findLockedMatchingCard g l X ex = Some m \<Longrightarrow>
   m \<noteq> ex \<and> isLocked l m \<and> (\<exists>k'. (m, k') \<in> set g \<and> id_c k' = X)"
  by (induction g) (auto split: if_splits)

lemma findLockedMatchingCard_NoneD:
  "findLockedMatchingCard g l X ex = None \<Longrightarrow> (c', k') \<in> set g \<Longrightarrow>
   \<not> (c' \<noteq> ex \<and> id_c k' = X \<and> isLocked l c')"
  by (induction g) (auto split: if_splits)

subsection \<open>The effect of a placement\<close>

lemma click_effect:
  assumes "selectedCard s = Some k" and "\<not> isLocked (lockedCells s) c"
  shows "handleCellClick c s =
    (let partner = (if id_c k = ''lock'' then None
                    else truthyId (findMatchingCard (grid s) (lockedCells s) (id_c k) c))
     in s\<lparr>grid := AList.update c k (grid s),
          lockedCells :=
            (if id_c k = ''lock'' then AList.update c True (lockedCells s)
             else case partner of
                    Some m \<Rightarrow> AList.update m True (AList.update c True (lockedCells s))
                  | None \<Rightarrow> lockedCells s),
          history := history s @ [placeEntry c k (map_of (grid s) c) partner],
          selectedCard := None\<rparr>)"
  using assms by (simp add: handleCellClick_def Let_def split: option.split)

lemma click_activeCard:
  "handleCellClick c (s\<lparr>activeCard := a, selectedCard := x\<rparr>)
     = (handleCellClick c (s\<lparr>selectedCard := x\<rparr>))\<lparr>activeCard := a\<rparr>"
  by (simp add: handleCellClick_def Let_def split: option.split)

text \<open>
  A drop of a catalog card is the click placement of that card, up to the two fields
  that hold the selected and the dragged card.
\<close>

lemma dragEnd_as_click:
  "find (\<lambda>x. id_c x = a) CARD_ICONS = Some k \<Longrightarrow>
   handleDragEnd a (Some c) s
     = (handleCellClick c (s\<lparr>selectedCard := Some k\<rparr>))
         \<lparr>selectedCard := selectedCard s, activeCard := None\<rparr>"
  by (simp add: handleDragEnd_def handleCellClick_def Let_def split: option.split)

lemma catalog_ids:
  "list_all (\<lambda>k. find (\<lambda>x. id_c x = id_c k) CARD_ICONS = Some k) CARD_ICONS"
  by code_simp

lemma find_catalog:
  "k \<in> set CARD_ICONS \<Longrightarrow> find (\<lambda>x. id_c x = id_c k) CARD_ICONS = Some k"
  using catalog_ids by (simp add: list_all_iff)

subsection \<open>The example states\<close>

lemma selectedOnEmpty_fields:
  "grid selectedOnEmpty = []"
  "lockedCells selectedOnEmpty = []"
  "selectedCard selectedOnEmpty = Some wineCard"
  by code_simp+

lemma oneWineSelected_fields:
  "grid oneWineSelected = [(''cell-0'', wineCard)]"
  "lockedCells oneWineSelected = []"
  "selectedCard oneWineSelected = Some wineCard"
  by code_simp+

lemma pairedState_grid:
  "grid pairedState = [(''cell-0'', wineCard), (''cell-1'', wineCard)]"
  by code_simp

lemma pairedState_locks:
  "lockedCells pairedState = [(''cell-1'', True), (''cell-0'', True)]"
  by code_simp

section \<open>Removal and placement that are ignored\<close>

text \<open>
  C10. For a cell that has no occupant in the grid, \<open>handleRemoveCard\<close> changes nothing:
  the grid, the lock set and the history (indeed the whole state) are as before, so no
  history entry is appended.
\<close>

theorem remove_unoccupied_noop:
  "map_of (grid s) c = None \<Longrightarrow> handleRemoveCard c s = s"
  by (simp add: handleRemoveCard_def)

theorem remove_unoccupied_noop_witness:
  "map_of (grid pairedState) ''cell-5'' = None
   \<and> handleRemoveCard ''cell-5'' pairedState = pairedState"
proof -
  have h: "map_of (grid pairedState) ''cell-5'' = None"
    by code_simp
  from remove_unoccupied_noop [OF h] h show ?thesis
    by simp
qed

text \<open>
  C4. On a locked cell, placing by click (whatever card is selected), placing by drag
  (whatever card is dragged) and removing leave the grid, the lock set and the history
  unchanged; the click and the removal leave the whole state unchanged. A double click
  on the cell is what unlocks it.
\<close>

theorem locked_cell_noop:
  assumes "isLocked (lockedCells s) c"
  shows "handleCellClick c s = s
    \<and> grid (handleDragEnd a (Some c) s) = grid s
    \<and> lockedCells (handleDragEnd a (Some c) s) = lockedCells s
    \<and> history (handleDragEnd a (Some c) s) = history s
    \<and> handleRemoveCard c s = s
    \<and> \<not> isLocked (lockedCells (handleDoubleClick c s)) c"
proof -
  have click: "handleCellClick c s = s"
    using assms by (simp add: handleCellClick_def split: option.split)
  have drag: "handleDragEnd a (Some c) s = s\<lparr>activeCard := None\<rparr>"
    using assms by (simp add: handleDragEnd_def split: option.split)
  have rem: "handleRemoveCard c s = s"
    using assms by (simp add: handleRemoveCard_def split: option.split)
  have dbl: "\<not> isLocked (lockedCells (handleDoubleClick c s)) c"
    using assms
    by (simp add: handleDoubleClick_def Let_def isLocked_delete split: option.split)
  show ?thesis
    using click drag rem dbl by simp
qed

theorem locked_cell_noop_witness:
  "isLocked (lockedCells (handleCardClick anchorCard pairedState)) ''cell-0''
   \<and> handleCellClick ''cell-0'' (handleCardClick anchorCard pairedState)
       = handleCardClick anchorCard pairedState
   \<and> history (handleDragEnd ''anchor'' (Some ''cell-0'') (handleCardClick anchorCard pairedState))
       = history (handleCardClick anchorCard pairedState)
   \<and> handleRemoveCard ''cell-0'' (handleCardClick anchorCard pairedState)
       = handleCardClick anchorCard pairedState"
proof -
  have h: "isLocked (lockedCells (handleCardClick anchorCard pairedState)) ''cell-0''"
    by code_simp
  from locked_cell_noop [OF h, of "''anchor''"] h show ?thesis
    by simp
qed

section \<open>Layout\<close>

text \<open>
  C7. With an empty grid \<open>handleLayoutChange\<close> applies the new dimensions at once and
  touches nothing else. With a non-empty grid it only stages them: the dimensions, the
  grid, the lock set and the history stay as they are, the pending layout holds the new
  dimensions and the warning is shown; \<open>confirmLayoutChange\<close> then applies the pending
  dimensions and empties the grid, the lock set and the history together.
\<close>

theorem layout_change_apply_or_stage:
  "(grid s = [] \<longrightarrow> handleLayoutChange r c s = s\<lparr>rows := r, cols := c\<rparr>)
   \<and> (grid s \<noteq> [] \<longrightarrow>
        handleLayoutChange r c s = s\<lparr>showWarning := True, pendingLayout := Some (r, c)\<rparr>
        \<and> rows (confirmLayoutChange (handleLayoutChange r c s)) = r
        \<and> cols (confirmLayoutChange (handleLayoutChange r c s)) = c
        \<and> grid (confirmLayoutChange (handleLayoutChange r c s)) = []
        \<and> lockedCells (confirmLayoutChange (handleLayoutChange r c s)) = []
        \<and> history (confirmLayoutChange (handleLayoutChange r c s)) = []
        \<and> pendingLayout (confirmLayoutChange (handleLayoutChange r c s)) = None
        \<and> \<not> showWarning (confirmLayoutChange (handleLayoutChange r c s)))"
  by (simp add: handleLayoutChange_def hasCards_def confirmLayoutChange_def)

theorem layout_change_apply_or_stage_witness:
  "grid initState = []
   \<and> handleLayoutChange 3 6 initState = initState\<lparr>rows := 3, cols := 6\<rparr>
   \<and> grid pairedState \<noteq> []
   \<and> rows (handleLayoutChange 3 6 pairedState) = 2
   \<and> rows (confirmLayoutChange (handleLayoutChange 3 6 pairedState)) = 3
   \<and> grid (confirmLayoutChange (handleLayoutChange 3 6 pairedState)) = []"
proof -
  have e: "grid initState = []"
    by (simp add: initState_def)
  have n: "grid pairedState \<noteq> []"
    by code_simp
  have r: "rows pairedState = 2"
    by code_simp
  have a: "handleLayoutChange 3 6 initState = initState\<lparr>rows := 3, cols := 6\<rparr>"
    using layout_change_apply_or_stage [of initState 3 6] e by blast
  have st: "handleLayoutChange 3 6 pairedState
      = pairedState\<lparr>showWarning := True, pendingLayout := Some (3, 6)\<rparr>"
    using layout_change_apply_or_stage [of pairedState 3 6] n by blast
  have b: "rows (confirmLayoutChange (handleLayoutChange 3 6 pairedState)) = 3
      \<and> grid (confirmLayoutChange (handleLayoutChange 3 6 pairedState)) = []"
    using layout_change_apply_or_stage [of pairedState 3 6] n by blast
  have c: "rows (handleLayoutChange 3 6 pairedState) = 2"
    by (simp add: st r)
  show ?thesis
    using e n a b c by blast
qed

text \<open>
  C6, at entries outside 1..10. No dimension is coerced to a bound: entering 50 in the
  row field of the empty grid gives a layout of 50 rows, entering -3 in the column field
  gives -3 columns, and on a grid that holds cards the same two values are staged
  unchanged as the pending layout.
\<close>

theorem layout_not_clamped:
  "rows (onRowsChange (Some 50) initState) = 50
   \<and> cols (onColsChange (Some (- 3)) initState) = - 3
   \<and> rows (handleLayoutChange 50 (- 3) initState) = 50
   \<and> cols (handleLayoutChange 50 (- 3) initState) = - 3
   \<and> pendingLayout (handleLayoutChange 50 (- 3) pairedState) = Some (50, - 3)
   \<and> rows (confirmLayoutChange (handleLayoutChange 50 (- 3) pairedState)) = 50
   \<and> cols (confirmLayoutChange (handleLayoutChange 50 (- 3) pairedState)) = - 3"
  by code_simp

section \<open>The lock token\<close>

text \<open>
  C5, the catalog. No entry of \<open>CARD_ICONS\<close> has the id \<open>lock\<close>, and the lookup that
  \<open>handleDragEnd\<close> makes for a dragged card with that id finds nothing.
\<close>

theorem catalog_has_no_lock_token:
  "list_all (\<lambda>k. id_c k \<noteq> ''lock'') CARD_ICONS
   \<and> find (\<lambda>k. id_c k = ''lock'') CARD_ICONS = None"
  by (simp add: CARD_ICONS_def)

text \<open>
  The branch of the placement for a card with the id \<open>lock\<close>: the cell is locked at
  once, no search is made and the history entry records no partner.
\<close>

lemma place_lock_token:
  assumes "selectedCard s = Some k" and "id_c k = ''lock''" and "\<not> isLocked (lockedCells s) c"
  shows "lockedCells (handleCellClick c s) = AList.update c True (lockedCells s)
    \<and> isLocked (lockedCells (handleCellClick c s)) c
    \<and> history (handleCellClick c s) = history s @ [placeEntry c k (map_of (grid s) c) None]
    \<and> lockedCellId (last (history (handleCellClick c s))) = None"
  using assms by (simp add: click_effect isLocked_update placeEntry_def)

section \<open>Placing a card and pairing\<close>

text \<open>
  C3. A card other than the lock token is placed by click on an unlocked cell \<open>c\<close>, in
  a grid whose keys are not empty strings. The card is written into the cell. If the
  entry at position \<open>i\<close> of the grid is the first one, in the order of enumeration, that
  is another cell, holds a card with the same id and is not locked, then the search
  returns its key, that cell and \<open>c\<close> are locked, and the appended history entry records
  that key as the partner. If no entry is such a match, the lock set is unchanged and
  the appended entry records no partner.
\<close>

theorem place_pairs_with_first_unlocked_match:
  assumes "selectedCard s = Some k" and "id_c k \<noteq> ''lock''"
    and "\<not> isLocked (lockedCells s) c" and "[] \<notin> fst ` set (grid s)"
  shows "grid (handleCellClick c s) = AList.update c k (grid s)
    \<and> (\<forall>i. firstAt (unlockedMatch (lockedCells s) (id_c k) c) (grid s) i \<longrightarrow>
          findMatchingCard (grid s) (lockedCells s) (id_c k) c = Some (fst (grid s ! i))
          \<and> lockedCells (handleCellClick c s)
              = AList.update (fst (grid s ! i)) True (AList.update c True (lockedCells s))
          \<and> isLocked (lockedCells (handleCellClick c s)) c
          \<and> isLocked (lockedCells (handleCellClick c s)) (fst (grid s ! i))
          \<and> history (handleCellClick c s)
              = history s @ [placeEntry c k (map_of (grid s) c) (Some (fst (grid s ! i)))]
          \<and> lockedCellId (last (history (handleCellClick c s))) = Some (fst (grid s ! i)))
    \<and> ((\<forall>e \<in> set (grid s). \<not> unlockedMatch (lockedCells s) (id_c k) c e) \<longrightarrow>
          findMatchingCard (grid s) (lockedCells s) (id_c k) c = None
          \<and> lockedCells (handleCellClick c s) = lockedCells s
          \<and> history (handleCellClick c s)
              = history s @ [placeEntry c k (map_of (grid s) c) None]
          \<and> lockedCellId (last (history (handleCellClick c s))) = None)"
proof (intro conjI allI impI)
  show "grid (handleCellClick c s) = AList.update c k (grid s)"
    using assms by (simp add: click_effect Let_def)
next
  fix i
  assume f: "firstAt (unlockedMatch (lockedCells s) (id_c k) c) (grid s) i"
  let ?m = "fst (grid s ! i)"
  have "i < length (grid s)"
    using f by (simp add: firstAt_def)
  then have "?m \<in> fst ` set (grid s)"
    by simp
  then have ne: "?m \<noteq> []"
    using assms(4) by metis
  show fm: "findMatchingCard (grid s) (lockedCells s) (id_c k) c = Some ?m"
    by (simp add: findMatchingCard_find find_firstAt [OF f])
  show lk: "lockedCells (handleCellClick c s)
      = AList.update ?m True (AList.update c True (lockedCells s))"
    using assms ne by (simp add: click_effect fm)
  show "isLocked (lockedCells (handleCellClick c s)) c"
    by (simp add: lk isLocked_update)
  show "isLocked (lockedCells (handleCellClick c s)) ?m"
    by (simp add: lk isLocked_update)
  show "history (handleCellClick c s)
      = history s @ [placeEntry c k (map_of (grid s) c) (Some ?m)]"
    using assms ne by (simp add: click_effect fm)
  then show "lockedCellId (last (history (handleCellClick c s))) = Some ?m"
    by (simp add: placeEntry_def)
next
  assume n: "\<forall>e \<in> set (grid s). \<not> unlockedMatch (lockedCells s) (id_c k) c e"
  show fm: "findMatchingCard (grid s) (lockedCells s) (id_c k) c = None"
    by (simp add: findMatchingCard_find find_none [OF n])
  show "lockedCells (handleCellClick c s) = lockedCells s"
    using assms by (simp add: click_effect fm)
  show "history (handleCellClick c s) = history s @ [placeEntry c k (map_of (grid s) c) None]"
    using assms by (simp add: click_effect fm)
  then show "lockedCellId (last (history (handleCellClick c s))) = None"
    by (simp add: placeEntry_def)
qed

theorem place_pairs_with_first_unlocked_match_witness:
  "selectedCard oneWineSelected = Some wineCard \<and> id_c wineCard \<noteq> ''lock''
   \<and> \<not> isLocked (lockedCells oneWineSelected) ''cell-1''
   \<and> [] \<notin> fst ` set (grid oneWineSelected)
   \<and> firstAt (unlockedMatch (lockedCells oneWineSelected) (id_c wineCard) ''cell-1'')
        (grid oneWineSelected) 0
   \<and> lockedCells (handleCellClick ''cell-1'' oneWineSelected)
        = [(''cell-1'', True), (''cell-0'', True)]
   \<and> lockedCellId (last (history (handleCellClick ''cell-1'' oneWineSelected))) = Some ''cell-0''
   \<and> selectedCard selectedOnEmpty = Some wineCard
   \<and> \<not> isLocked (lockedCells selectedOnEmpty) ''cell-0''
   \<and> grid selectedOnEmpty = []
   \<and> lockedCells (handleCellClick ''cell-0'' selectedOnEmpty) = []
   \<and> lockedCellId (last (history (handleCellClick ''cell-0'' selectedOnEmpty))) = None"
proof -
  have a1: "selectedCard oneWineSelected = Some wineCard"
    by (simp add: oneWineSelected_fields)
  have a2: "id_c wineCard \<noteq> ''lock''"
    by (simp add: wineCard_def)
  have a3: "\<not> isLocked (lockedCells oneWineSelected) ''cell-1''"
    by (simp add: oneWineSelected_fields isLocked_def)
  have a4: "[] \<notin> fst ` set (grid oneWineSelected)"
    by (simp add: oneWineSelected_fields)
  have a5: "firstAt (unlockedMatch (lockedCells oneWineSelected) (id_c wineCard) ''cell-1'')
      (grid oneWineSelected) 0"
    by (simp add: oneWineSelected_fields firstAt_def unlockedMatch_def isLocked_def)
  note T = place_pairs_with_first_unlocked_match [OF a1 a2 a3 a4]
  have "lockedCells (handleCellClick ''cell-1'' oneWineSelected)
      = AList.update (fst (grid oneWineSelected ! 0)) True
          (AList.update ''cell-1'' True (lockedCells oneWineSelected))
    \<and> lockedCellId (last (history (handleCellClick ''cell-1'' oneWineSelected)))
      = Some (fst (grid oneWineSelected ! 0))"
    using T a5 by blast
  then have c1: "lockedCells (handleCellClick ''cell-1'' oneWineSelected)
      = [(''cell-1'', True), (''cell-0'', True)]
    \<and> lockedCellId (last (history (handleCellClick ''cell-1'' oneWineSelected))) = Some ''cell-0''"
    by (simp add: oneWineSelected_fields)
  have b1: "selectedCard selectedOnEmpty = Some wineCard"
    by (simp add: selectedOnEmpty_fields)
  have b3: "\<not> isLocked (lockedCells selectedOnEmpty) ''cell-0''"
    by (simp add: selectedOnEmpty_fields isLocked_def)
  have b4: "[] \<notin> fst ` set (grid selectedOnEmpty)"
    by (simp add: selectedOnEmpty_fields)
  have b5: "\<forall>e \<in> set (grid selectedOnEmpty).
      \<not> unlockedMatch (lockedCells selectedOnEmpty) (id_c wineCard) ''cell-0'' e"
    by (simp add: selectedOnEmpty_fields)
  have b6: "grid selectedOnEmpty = []"
    by (simp add: selectedOnEmpty_fields)
  note U = place_pairs_with_first_unlocked_match [OF b1 a2 b3 b4]
  have "lockedCells (handleCellClick ''cell-0'' selectedOnEmpty) = lockedCells selectedOnEmpty
    \<and> lockedCellId (last (history (handleCellClick ''cell-0'' selectedOnEmpty))) = None"
    using U b5 by blast
  then have c2: "lockedCells (handleCellClick ''cell-0'' selectedOnEmpty) = []
    \<and> lockedCellId (last (history (handleCellClick ''cell-0'' selectedOnEmpty))) = None"
    by (simp add: selectedOnEmpty_fields)
  show ?thesis
    using a1 a2 a3 a4 a5 c1 b1 b3 b6 c2 by blast
qed

text \<open>
  C9. For every cell and every card of the catalog, the drop of the card on the cell
  and the click on the cell with that card selected give the same grid, the same lock
  set and the same history. From a state in which that card is not the selected one,
  the two gestures as a whole (press and drop, or click on the card and click on the
  cell) agree in the same way.
\<close>

theorem drag_click_parity:
  "k \<in> set CARD_ICONS \<Longrightarrow>
   grid (handleDragEnd (id_c k) (Some c) s) = grid (handleCellClick c (s\<lparr>selectedCard := Some k\<rparr>))
   \<and> lockedCells (handleDragEnd (id_c k) (Some c) s)
       = lockedCells (handleCellClick c (s\<lparr>selectedCard := Some k\<rparr>))
   \<and> history (handleDragEnd (id_c k) (Some c) s)
       = history (handleCellClick c (s\<lparr>selectedCard := Some k\<rparr>))
   \<and> ((\<forall>p. selectedCard s = Some p \<longrightarrow> id_c p \<noteq> id_c k) \<longrightarrow>
        grid (run s [DragStart (id_c k), DragEnd (id_c k) (Some c)])
          = grid (run s [CardClick k, CellClick c])
        \<and> lockedCells (run s [DragStart (id_c k), DragEnd (id_c k) (Some c)])
          = lockedCells (run s [CardClick k, CellClick c])
        \<and> history (run s [DragStart (id_c k), DragEnd (id_c k) (Some c)])
          = history (run s [CardClick k, CellClick c]))"
proof -
  assume k: "k \<in> set CARD_ICONS"
  note fk = find_catalog [OF k]
  have direct: "handleDragEnd (id_c k) (Some c) s
      = (handleCellClick c (s\<lparr>selectedCard := Some k\<rparr>))
          \<lparr>selectedCard := selectedCard s, activeCard := None\<rparr>"
    using fk by (rule dragEnd_as_click)
  have gesture: "grid (run s [DragStart (id_c k), DragEnd (id_c k) (Some c)])
          = grid (run s [CardClick k, CellClick c])
        \<and> lockedCells (run s [DragStart (id_c k), DragEnd (id_c k) (Some c)])
          = lockedCells (run s [CardClick k, CellClick c])
        \<and> history (run s [DragStart (id_c k), DragEnd (id_c k) (Some c)])
          = history (run s [CardClick k, CellClick c])"
    if other: "\<forall>p. selectedCard s = Some p \<longrightarrow> id_c p \<noteq> id_c k"
  proof -
    have sel: "handleCardClick k s = s\<lparr>selectedCard := Some k\<rparr>"
      using other by (simp add: handleCardClick_def split: option.split)
    have start: "handleDragStart (id_c k) s = s\<lparr>activeCard := Some k, selectedCard := None\<rparr>"
      by (simp add: handleDragStart_def fk)
    have "handleDragEnd (id_c k) (Some c) (handleDragStart (id_c k) s)
        = (handleCellClick c (s\<lparr>selectedCard := Some k\<rparr>))
            \<lparr>selectedCard := None, activeCard := None\<rparr>"
      using click_activeCard [where c = c and s = s and a = "Some k" and x = "Some k"]
      by (simp add: start dragEnd_as_click [OF fk])
    then show ?thesis
      by (simp add: run_def sel)
  qed
  show ?thesis
    using direct gesture by simp
qed

theorem drag_click_parity_witness:
  "wineCard \<in> set CARD_ICONS
   \<and> lockedCells (handleDragEnd ''wine'' (Some ''cell-1'') oneWineSelected)
       = lockedCells (handleCellClick ''cell-1'' (oneWineSelected\<lparr>selectedCard := Some wineCard\<rparr>))
   \<and> lockedCells (handleDragEnd ''wine'' (Some ''cell-1'') oneWineSelected)
       = [(''cell-1'', True), (''cell-0'', True)]
   \<and> selectedCard initState = None
   \<and> grid (run initState [DragStart ''wine'', DragEnd ''wine'' (Some ''cell-0'')])
       = grid (run initState [CardClick wineCard, CellClick ''cell-0''])"
proof -
  have h: "wineCard \<in> set CARD_ICONS"
    by (simp add: CARD_ICONS_def wineCard_def)
  have i: "id_c wineCard = ''wine''"
    by (simp add: wineCard_def)
  have e: "lockedCells (handleDragEnd ''wine'' (Some ''cell-1'') oneWineSelected)
      = [(''cell-1'', True), (''cell-0'', True)]"
    by code_simp
  have n: "selectedCard initState = None"
    by (simp add: initState_def)
  have a: "lockedCells (handleDragEnd ''wine'' (Some ''cell-1'') oneWineSelected)
      = lockedCells (handleCellClick ''cell-1'' (oneWineSelected\<lparr>selectedCard := Some wineCard\<rparr>))"
    using drag_click_parity [OF h, of "''cell-1''" oneWineSelected] by (simp add: i)
  have b: "grid (run initState [DragStart ''wine'', DragEnd ''wine'' (Some ''cell-0'')])
      = grid (run initState [CardClick wineCard, CellClick ''cell-0''])"
    using drag_click_parity [OF h, of "''cell-0''" initState] n by (simp add: i)
  show ?thesis
    using h e n a b by blast
qed

section \<open>Unlocking by double click\<close>

text \<open>
  C8. \<open>handleDoubleClick\<close> never changes the grid or the history, nor any field other
  than the lock set, so it appends no history entry. On a locked cell \<open>c\<close>, in a grid
  whose keys are not empty strings, it clears the lock flag of \<open>c\<close>. If \<open>c\<close> holds a
  card other than the lock token and the entry at position \<open>i\<close> of the grid is the
  first one, in the order of enumeration, that is another cell, holds a card with the
  same id and is locked, then the search returns its key and its lock flag is cleared
  too: the lock set is the old one with exactly these two keys deleted. If there is no
  such entry, or \<open>c\<close> holds the lock token or no card, only the key \<open>c\<close> is deleted.
\<close>

theorem toggleLock_frame:
  "grid (handleDoubleClick c s) = grid s
   \<and> history (handleDoubleClick c s) = history s
   \<and> handleDoubleClick c s = s\<lparr>lockedCells := lockedCells (handleDoubleClick c s)\<rparr>
   \<and> (isLocked (lockedCells s) c \<and> [] \<notin> fst ` set (grid s) \<longrightarrow>
        \<not> isLocked (lockedCells (handleDoubleClick c s)) c
        \<and> (\<forall>k i. map_of (grid s) c = Some k \<and> id_c k \<noteq> ''lock''
              \<and> firstAt (lockedMatch (lockedCells s) (id_c k) c) (grid s) i \<longrightarrow>
              findLockedMatchingCard (grid s) (lockedCells s) (id_c k) c = Some (fst (grid s ! i))
              \<and> lockedCells (handleDoubleClick c s)
                  = AList.delete (fst (grid s ! i)) (AList.delete c (lockedCells s))
              \<and> \<not> isLocked (lockedCells (handleDoubleClick c s)) (fst (grid s ! i)))
        \<and> (\<forall>k. map_of (grid s) c = Some k \<and> id_c k \<noteq> ''lock''
              \<and> (\<forall>e \<in> set (grid s). \<not> lockedMatch (lockedCells s) (id_c k) c e) \<longrightarrow>
              lockedCells (handleDoubleClick c s) = AList.delete c (lockedCells s))
        \<and> ((\<forall>k. map_of (grid s) c = Some k \<longrightarrow> id_c k = ''lock'') \<longrightarrow>
              lockedCells (handleDoubleClick c s) = AList.delete c (lockedCells s)))"
proof (intro conjI impI allI)
  show "grid (handleDoubleClick c s) = grid s"
    by (simp add: handleDoubleClick_def Let_def)
  show "history (handleDoubleClick c s) = history s"
    by (simp add: handleDoubleClick_def Let_def)
  show "handleDoubleClick c s = s\<lparr>lockedCells := lockedCells (handleDoubleClick c s)\<rparr>"
    by (simp add: handleDoubleClick_def Let_def)
next
  assume a: "isLocked (lockedCells s) c \<and> [] \<notin> fst ` set (grid s)"
  show "\<not> isLocked (lockedCells (handleDoubleClick c s)) c"
    using a
    by (simp add: handleDoubleClick_def Let_def isLocked_delete split: option.split)
next
  fix k i
  assume a: "isLocked (lockedCells s) c \<and> [] \<notin> fst ` set (grid s)"
    and b: "map_of (grid s) c = Some k \<and> id_c k \<noteq> ''lock''
      \<and> firstAt (lockedMatch (lockedCells s) (id_c k) c) (grid s) i"
  let ?m = "fst (grid s ! i)"
  have f: "firstAt (lockedMatch (lockedCells s) (id_c k) c) (grid s) i"
    using b by blast
  then have "i < length (grid s)"
    by (simp add: firstAt_def)
  then have "?m \<in> fst ` set (grid s)"
    by simp
  then have ne: "?m \<noteq> []"
    using a by metis
  show fm: "findLockedMatchingCard (grid s) (lockedCells s) (id_c k) c = Some ?m"
    by (simp add: findLockedMatchingCard_find find_firstAt [OF f])
  show lk: "lockedCells (handleDoubleClick c s)
      = AList.delete ?m (AList.delete c (lockedCells s))"
    using a b ne by (simp add: handleDoubleClick_def Let_def fm)
  show "\<not> isLocked (lockedCells (handleDoubleClick c s)) ?m"
    by (simp add: lk isLocked_delete)
next
  fix k
  assume a: "isLocked (lockedCells s) c \<and> [] \<notin> fst ` set (grid s)"
    and b: "map_of (grid s) c = Some k \<and> id_c k \<noteq> ''lock''
      \<and> (\<forall>e \<in> set (grid s). \<not> lockedMatch (lockedCells s) (id_c k) c e)"
  then have n: "\<forall>e \<in> set (grid s). \<not> lockedMatch (lockedCells s) (id_c k) c e"
    by blast
  have fm: "findLockedMatchingCard (grid s) (lockedCells s) (id_c k) c = None"
    by (simp add: findLockedMatchingCard_find find_none [OF n])
  show "lockedCells (handleDoubleClick c s) = AList.delete c (lockedCells s)"
    using a b by (simp add: handleDoubleClick_def Let_def fm)
next
  assume a: "isLocked (lockedCells s) c \<and> [] \<notin> fst ` set (grid s)"
    and b: "\<forall>k. map_of (grid s) c = Some k \<longrightarrow> id_c k = ''lock''"
  show "lockedCells (handleDoubleClick c s) = AList.delete c (lockedCells s)"
  proof (cases "map_of (grid s) c")
    case None
    then show ?thesis
      using a by (simp add: handleDoubleClick_def Let_def)
  next
    case (Some k)
    then have "id_c k = ''lock''"
      using b by blast
    then show ?thesis
      using a Some by (simp add: handleDoubleClick_def Let_def)
  qed
qed

theorem toggleLock_frame_witness:
  "isLocked (lockedCells pairedState) ''cell-0'' \<and> [] \<notin> fst ` set (grid pairedState)
   \<and> map_of (grid pairedState) ''cell-0'' = Some wineCard \<and> id_c wineCard \<noteq> ''lock''
   \<and> firstAt (lockedMatch (lockedCells pairedState) (id_c wineCard) ''cell-0'') (grid pairedState) 1
   \<and> lockedCells (handleDoubleClick ''cell-0'' pairedState) = []
   \<and> history (handleDoubleClick ''cell-0'' pairedState) = history pairedState"
proof -
  have h1: "isLocked (lockedCells pairedState) ''cell-0'' \<and> [] \<notin> fst ` set (grid pairedState)"
    by (simp add: pairedState_grid pairedState_locks isLocked_def)
  have h2: "map_of (grid pairedState) ''cell-0'' = Some wineCard \<and> id_c wineCard \<noteq> ''lock''
      \<and> firstAt (lockedMatch (lockedCells pairedState) (id_c wineCard) ''cell-0'')
           (grid pairedState) 1"
    by (simp add: pairedState_grid pairedState_locks isLocked_def firstAt_def lockedMatch_def
        wineCard_def)
  note T = toggleLock_frame [of "''cell-0''" pairedState]
  have "lockedCells (handleDoubleClick ''cell-0'' pairedState)
      = AList.delete (fst (grid pairedState ! 1)) (AList.delete ''cell-0'' (lockedCells pairedState))"
    using T h1 h2 by blast
  then have l: "lockedCells (handleDoubleClick ''cell-0'' pairedState) = []"
    by (simp add: pairedState_grid pairedState_locks)
  have hist: "history (handleDoubleClick ''cell-0'' pairedState) = history pairedState"
    using T by blast
  show ?thesis
    using h1 h2 l hist by blast
qed

section \<open>Undo\<close>

text \<open>
  C1, at the removal that dissolves a pairing. After three wine cards are placed on
  \<open>cell-0\<close>, \<open>cell-1\<close> and \<open>cell-2\<close>, the first two cells are locked. Removing the
  card of \<open>cell-2\<close> unlocks \<open>cell-0\<close> and the history entry records \<open>cell-0\<close> as the
  partner. The undo puts the card back on \<open>cell-2\<close> and leaves \<open>cell-0\<close> unlocked: the
  lock set is not the one from before the removal.
\<close>

theorem undo_remove_drops_partner_lock:
  "lockedCells (run initState placeThreeWines) = [(''cell-1'', True), (''cell-0'', True)]
   \<and> lockedCells (handleRemoveCard ''cell-2'' (run initState placeThreeWines))
       = [(''cell-1'', True)]
   \<and> lockedCellId (last (history (handleRemoveCard ''cell-2'' (run initState placeThreeWines))))
       = Some ''cell-0''
   \<and> map_of (grid (handleUndo (handleRemoveCard ''cell-2'' (run initState placeThreeWines))))
       ''cell-2'' = Some wineCard
   \<and> lockedCells (handleUndo (handleRemoveCard ''cell-2'' (run initState placeThreeWines)))
       = [(''cell-1'', True)]
   \<and> lockedCells (handleUndo (handleRemoveCard ''cell-2'' (run initState placeThreeWines)))
       \<noteq> lockedCells (run initState placeThreeWines)"
  by code_simp

text \<open>
  The undo of a placement, in contrast, is exact: on a state whose lock object holds
  only the value \<open>true\<close>, a placement by click on an unlocked cell followed by one undo
  gives back the grid, the lock set and the history, entry order included.
\<close>

lemma undoLocks_place:
  assumes ot: "onlyTrue l" and ul: "\<not> isLocked l c"
  shows "undoLocks (placeEntry c k prev None) (AList.update c True l) = l"
    and "undoLocks (placeEntry c k prev None) l = l"
    and "m \<noteq> [] \<Longrightarrow> m \<noteq> c \<Longrightarrow> \<not> isLocked l m \<Longrightarrow>
      undoLocks (placeEntry c k prev (Some m)) (AList.update m True (AList.update c True l)) = l"
proof -
  have c: "c \<notin> fst ` set l"
    using ot ul by (rule unlocked_absent)
  show "undoLocks (placeEntry c k prev None) (AList.update c True l) = l"
    using c by (simp add: undoLocks_def placeEntry_def delete_after_update)
  show "undoLocks (placeEntry c k prev None) l = l"
    using c by (simp add: undoLocks_def placeEntry_def)
  show "undoLocks (placeEntry c k prev (Some m)) (AList.update m True (AList.update c True l)) = l"
    if "m \<noteq> []" and "m \<noteq> c" and "\<not> isLocked l m"
  proof -
    have m: "m \<notin> fst ` set l"
      using ot that(3) by (rule unlocked_absent)
    have "AList.delete c (AList.update m True (AList.update c True l))
        = AList.update m True (AList.delete c (AList.update c True l))"
      using that(2) by (simp add: AList.delete_update)
    also have "\<dots> = AList.update m True l"
      using c by (simp add: delete_after_update)
    finally show ?thesis
      using that(1) m by (simp add: undoLocks_def placeEntry_def delete_after_update)
  qed
qed

lemma undo_place_exact:
  assumes sel: "selectedCard s = Some k" and ul: "\<not> isLocked (lockedCells s) c"
    and ot: "onlyTrue (lockedCells s)"
  shows "handleUndo (handleCellClick c s) = s\<lparr>selectedCard := None\<rparr>"
proof -
  let ?g = "grid s" and ?l = "lockedCells s"
  let ?partner = "if id_c k = ''lock'' then None
                  else truthyId (findMatchingCard ?g ?l (id_c k) c)"
  let ?l' = "if id_c k = ''lock'' then AList.update c True ?l
             else case ?partner of
                    Some m \<Rightarrow> AList.update m True (AList.update c True ?l)
                  | None \<Rightarrow> ?l"
  let ?e = "placeEntry c k (map_of ?g c) ?partner"
  have eff: "handleCellClick c s =
      s\<lparr>grid := AList.update c k ?g, lockedCells := ?l',
        history := history s @ [?e], selectedCard := None\<rparr>"
    using click_effect [OF sel ul] by (simp add: Let_def)
  have locks: "undoLocks ?e ?l' = ?l"
  proof (cases "id_c k = ''lock''")
    case True
    then show ?thesis
      using undoLocks_place(1) [OF ot ul] by simp
  next
    case nl: False
    show ?thesis
    proof (cases "truthyId (findMatchingCard ?g ?l (id_c k) c)")
      case None
      then show ?thesis
        using nl undoLocks_place(2) [OF ot ul] by simp
    next
      case (Some m)
      from truthyId_SomeD [OF Some]
      have fm: "findMatchingCard ?g ?l (id_c k) c = Some m" and mne: "m \<noteq> []"
        by simp_all
      from findMatchingCard_SomeD [OF fm] have "m \<noteq> c" and "\<not> isLocked ?l m"
        by simp_all
      from undoLocks_place(3) [OF ot ul mne this] show ?thesis
        using nl Some by simp
    qed
  qed
  show ?thesis
  proof (cases "map_of ?g c")
    case None
    then have "c \<notin> fst ` set ?g"
      by (simp add: map_of_eq_None_iff)
    then have g: "AList.delete c (AList.update c k ?g) = ?g"
      by (rule delete_after_update)
    have ty: "type_h ?e = Add"
      using None by (simp add: placeEntry_def)
    have ce: "cellId ?e = c"
      by (simp add: placeEntry_def)
    show ?thesis
      unfolding eff handleUndo_def
      using ty ce g locks by (simp add: Let_def)
  next
    case (Some p)
    have g: "AList.update c p (AList.update c k ?g) = ?g"
      using Some by (simp add: AList.update_triv)
    have ty: "type_h ?e = Replace"
      using Some by (simp add: placeEntry_def)
    have ce: "cellId ?e = c" and pe: "previousCard ?e = Some p"
      using Some by (simp_all add: placeEntry_def)
    show ?thesis
      unfolding eff handleUndo_def
      using ty ce pe g locks by (simp add: Let_def)
  qed
qed

section \<open>Pairing symmetry\<close>

subsection \<open>The invariant\<close>

lemma pairInvI:
  assumes "distinct (map fst g)" and "[] \<notin> fst ` set g"
    and "\<And>x. isLocked l x \<Longrightarrow> map_of g x \<noteq> None"
    and "\<And>X. X \<noteq> ''lock'' \<Longrightarrow> even (card (lockedWith g l X))"
  shows "pairInv g l"
  unfolding pairInv_def using assms by blast

lemma pairInv_distinct: "pairInv g l \<Longrightarrow> distinct (map fst g)"
  unfolding pairInv_def by blast

lemma pairInv_keys: "pairInv g l \<Longrightarrow> [] \<notin> fst ` set g"
  unfolding pairInv_def by blast

lemma pairInv_occupied: "pairInv g l \<Longrightarrow> isLocked l x \<Longrightarrow> map_of g x \<noteq> None"
  unfolding pairInv_def by blast

lemma pairInv_even: "pairInv g l \<Longrightarrow> X \<noteq> ''lock'' \<Longrightarrow> even (card (lockedWith g l X))"
  unfolding pairInv_def by blast

lemma lockedWith_iff:
  "x \<in> lockedWith g l X \<longleftrightarrow> isLocked l x \<and> (\<exists>k. map_of g x = Some k \<and> id_c k = X)"
  by (simp add: lockedWith_def)

lemma finite_lockedWith: "finite (lockedWith g l X)"
proof -
  have "lockedWith g l X \<subseteq> fst ` set l"
  proof
    fix c
    assume "c \<in> lockedWith g l X"
    then have "map_of l c = Some True"
      by (simp add: lockedWith_def isLocked_def)
    then have "(c, True) \<in> set l"
      by (rule map_of_SomeD)
    then show "c \<in> fst ` set l"
      by (rule image_eqI [rotated]) simp
  qed
  then show ?thesis
    by (rule finite_subset) simp
qed

lemma even_card_other:
  assumes "finite S" and "even (card S)" and "c \<in> S"
  shows "\<exists>m \<in> S. m \<noteq> c"
proof (rule ccontr)
  assume "\<not> (\<exists>m \<in> S. m \<noteq> c)"
  then have "S \<subseteq> {c}"
    by blast
  then have "S = {c}"
    using assms(3) by blast
  then show False
    using assms(2) by simp
qed


lemma pairInv_pairing:
  assumes inv: "pairInv (grid s) (lockedCells s)"
  shows "pairingSymmetry s"
  unfolding pairingSymmetry_def
proof (intro allI impI)
  fix c
  assume lc: "isLocked (lockedCells s) c"
  from pairInv_occupied [OF inv lc] obtain k where k: "map_of (grid s) c = Some k"
    by blast
  show "\<exists>k. map_of (grid s) c = Some k
          \<and> (id_c k = ''lock''
             \<or> (\<exists>c' k'. c' \<noteq> c \<and> map_of (grid s) c' = Some k' \<and> id_c k' = id_c k
                  \<and> isLocked (lockedCells s) c'))"
  proof (cases "id_c k = ''lock''")
    case True
    then show ?thesis using k by blast
  next
    case False
    have ev: "even (card (lockedWith (grid s) (lockedCells s) (id_c k)))"
      using inv False by (rule pairInv_even)
    have "c \<in> lockedWith (grid s) (lockedCells s) (id_c k)"
      using lc k by (simp add: lockedWith_iff)
    from even_card_other [OF finite_lockedWith ev this]
    obtain m where "m \<in> lockedWith (grid s) (lockedCells s) (id_c k)" and "m \<noteq> c"
      by blast
    then show ?thesis
      using k unfolding lockedWith_iff by blast
  qed
qed

lemma pairInv_empty: "pairInv [] []"
  by (rule pairInvI) (simp_all add: lockedWith_def isLocked_def)


lemma pairInv_place_single:
  assumes inv: "pairInv g l" and ul: "\<not> isLocked l c" and ne: "c \<noteq> []"
  shows "pairInv (AList.update c k g) l"
proof (rule pairInvI)
  show "distinct (map fst (AList.update c k g))"
    using pairInv_distinct [OF inv] by (rule AList.distinct_update)
  show "[] \<notin> fst ` set (AList.update c k g)"
    using pairInv_keys [OF inv] ne by (simp add: keys_update)
  show "map_of (AList.update c k g) x \<noteq> None" if "isLocked l x" for x
    using pairInv_occupied [OF inv that] by (simp add: AList.update_conv')
  show "even (card (lockedWith (AList.update c k g) l X))" if "X \<noteq> ''lock''" for X
  proof -
    have "lockedWith (AList.update c k g) l X = lockedWith g l X"
      using ul by (auto simp: lockedWith_def AList.update_conv')
    then show ?thesis
      using pairInv_even [OF inv that] by simp
  qed
qed

lemma pairInv_place_lock:
  assumes inv: "pairInv g l" and ul: "\<not> isLocked l c" and ne: "c \<noteq> []"
    and lk: "id_c k = ''lock''"
  shows "pairInv (AList.update c k g) (AList.update c True l)"
proof (rule pairInvI)
  show "distinct (map fst (AList.update c k g))"
    using pairInv_distinct [OF inv] by (rule AList.distinct_update)
  show "[] \<notin> fst ` set (AList.update c k g)"
    using pairInv_keys [OF inv] ne by (simp add: keys_update)
  show "map_of (AList.update c k g) x \<noteq> None" if "isLocked (AList.update c True l) x" for x
    using that pairInv_occupied [OF inv, of x]
    by (auto simp: isLocked_update AList.update_conv')
  show "even (card (lockedWith (AList.update c k g) (AList.update c True l) X))"
    if "X \<noteq> ''lock''" for X
  proof -
    have "lockedWith (AList.update c k g) (AList.update c True l) X = lockedWith g l X"
      using ul lk that by (auto simp: lockedWith_def isLocked_update AList.update_conv')
    then show ?thesis
      using pairInv_even [OF inv that] by simp
  qed
qed

lemma pairInv_place_pair:
  assumes inv: "pairInv g l" and ul: "\<not> isLocked l c" and ne: "c \<noteq> []"
    and fm: "findMatchingCard g l (id_c k) c = Some m"
  shows "pairInv (AList.update c k g) (AList.update m True (AList.update c True l))"
proof (rule pairInvI)
  from findMatchingCard_SomeD [OF fm] obtain k' where
    mc: "m \<noteq> c" and um: "\<not> isLocked l m" and mem: "(m, k') \<in> set g" and idk: "id_c k' = id_c k"
    by blast
  have gm: "map_of g m = Some k'"
    using pairInv_distinct [OF inv] mem by simp
  show "distinct (map fst (AList.update c k g))"
    using pairInv_distinct [OF inv] by (rule AList.distinct_update)
  show "[] \<notin> fst ` set (AList.update c k g)"
    using pairInv_keys [OF inv] ne by (simp add: keys_update)
  show "map_of (AList.update c k g) x \<noteq> None"
    if "isLocked (AList.update m True (AList.update c True l)) x" for x
    using that pairInv_occupied [OF inv, of x] gm
    by (auto simp: isLocked_update AList.update_conv')
  show "even (card (lockedWith (AList.update c k g)
      (AList.update m True (AList.update c True l)) X))" if X: "X \<noteq> ''lock''" for X
  proof (cases "X = id_c k")
    case True
    have "lockedWith (AList.update c k g) (AList.update m True (AList.update c True l)) (id_c k)
        = insert c (insert m (lockedWith g l (id_c k)))"
      using ul um mc gm idk by (auto simp: lockedWith_def isLocked_update AList.update_conv')
    moreover have "c \<notin> lockedWith g l (id_c k)" and "m \<notin> lockedWith g l (id_c k)"
      using ul um by (simp_all add: lockedWith_def)
    then have "card (insert c (insert m (lockedWith g l (id_c k))))
        = Suc (Suc (card (lockedWith g l (id_c k))))"
      using mc by (simp add: finite_lockedWith)
    ultimately show ?thesis
      using pairInv_even [OF inv X] True by simp
  next
    case False
    have "lockedWith (AList.update c k g) (AList.update m True (AList.update c True l)) X
        = lockedWith g l X"
      using False ul um mc gm idk
      by (auto simp: lockedWith_def isLocked_update AList.update_conv')
    then show ?thesis
      using pairInv_even [OF inv X] by simp
  qed
qed

lemma pairInv_toggle_single:
  assumes inv: "pairInv g l"
    and notpair: "\<And>k. map_of g c = Some k \<Longrightarrow> id_c k = ''lock''"
  shows "pairInv g (AList.delete c l)"
proof (rule pairInvI)
  show "distinct (map fst g)"
    using inv by (rule pairInv_distinct)
  show "[] \<notin> fst ` set g"
    using inv by (rule pairInv_keys)
  show "map_of g x \<noteq> None" if "isLocked (AList.delete c l) x" for x
    using that pairInv_occupied [OF inv, of x] by (simp add: isLocked_delete)
  show "even (card (lockedWith g (AList.delete c l) X))" if "X \<noteq> ''lock''" for X
  proof -
    have "lockedWith g (AList.delete c l) X = lockedWith g l X"
      using notpair that by (auto simp: lockedWith_def isLocked_delete)
    then show ?thesis
      using pairInv_even [OF inv that] by simp
  qed
qed

lemma pairInv_toggle_pair:
  assumes inv: "pairInv g l" and lc: "isLocked l c" and gc: "map_of g c = Some k"
    and nl: "id_c k \<noteq> ''lock''"
  shows "\<exists>m. findLockedMatchingCard g l (id_c k) c = Some m \<and> m \<noteq> []
    \<and> pairInv g (AList.delete m (AList.delete c l))"
proof -
  let ?S = "lockedWith g l (id_c k)"
  have ev: "even (card ?S)"
    using inv nl by (rule pairInv_even)
  have cS: "c \<in> ?S"
    using lc gc by (simp add: lockedWith_def)
  from even_card_other [OF finite_lockedWith ev cS]
  obtain x where xS: "x \<in> ?S" and xc: "x \<noteq> c"
    by blast
  from xS obtain kx where gx: "map_of g x = Some kx" and idx: "id_c kx = id_c k"
    and lx: "isLocked l x"
    unfolding lockedWith_iff by blast
  have "(x, kx) \<in> set g"
    using gx by (rule map_of_SomeD)
  then have "findLockedMatchingCard g l (id_c k) c \<noteq> None"
    using findLockedMatchingCard_NoneD [of g l "id_c k" c x kx] xc idx lx by blast
  then obtain m where fm: "findLockedMatchingCard g l (id_c k) c = Some m"
    by blast
  from findLockedMatchingCard_SomeD [OF fm] obtain k' where
    mc: "m \<noteq> c" and lm: "isLocked l m" and mem: "(m, k') \<in> set g" and idk: "id_c k' = id_c k"
    by blast
  have gm: "map_of g m = Some k'"
    using pairInv_distinct [OF inv] mem by simp
  have "m \<in> fst ` set g"
    using mem by (rule image_eqI [rotated]) simp
  then have mne: "m \<noteq> []"
    using pairInv_keys [OF inv] by metis
  have mS: "m \<in> ?S"
    using lm gm idk by (simp add: lockedWith_def)
  have "pairInv g (AList.delete m (AList.delete c l))"
  proof (rule pairInvI)
    show "distinct (map fst g)"
      using inv by (rule pairInv_distinct)
    show "[] \<notin> fst ` set g"
      using inv by (rule pairInv_keys)
    show "map_of g x \<noteq> None" if "isLocked (AList.delete m (AList.delete c l)) x" for x
      using that pairInv_occupied [OF inv, of x] by (simp add: isLocked_delete)
    show "even (card (lockedWith g (AList.delete m (AList.delete c l)) X))"
      if X: "X \<noteq> ''lock''" for X
    proof (cases "X = id_c k")
      case True
      have "lockedWith g (AList.delete m (AList.delete c l)) (id_c k) = ?S - {c, m}"
        by (auto simp: lockedWith_def isLocked_delete)
      moreover have "card (?S - {c, m}) = card ?S - card {c, m}"
        using cS mS by (intro card_Diff_subset) auto
      moreover have "card {c, m} = 2"
        using mc by simp
      ultimately show ?thesis
        using ev True by simp
    next
      case False
      have "lockedWith g (AList.delete m (AList.delete c l)) X = lockedWith g l X"
        using False gc gm idk by (auto simp: lockedWith_def isLocked_delete)
      then show ?thesis
        using pairInv_even [OF inv X] by simp
    qed
  qed
  then show ?thesis
    using fm mne by blast
qed

lemma pairInv_click:
  assumes inv: "pairInv (grid s) (lockedCells s)" and ne: "c \<noteq> []"
  shows "pairInv (grid (handleCellClick c s)) (lockedCells (handleCellClick c s))"
proof (cases "selectedCard s")
  case None
  then show ?thesis
    using inv by (simp add: handleCellClick_def)
next
  case (Some k)
  show ?thesis
  proof (cases "isLocked (lockedCells s) c")
    case True
    then show ?thesis
      using inv Some by (simp add: handleCellClick_def)
  next
    case False
    note eff = click_effect [OF Some False]
    show ?thesis
    proof (cases "id_c k = ''lock''")
      case True
      then show ?thesis
        using pairInv_place_lock [OF inv False ne True] by (simp add: eff)
    next
      case nl: False
      show ?thesis
      proof (cases "truthyId (findMatchingCard (grid s) (lockedCells s) (id_c k) c)")
        case None
        then show ?thesis
          using pairInv_place_single [OF inv False ne, of k] nl by (simp add: eff)
      next
        case (Some m)
        from truthyId_SomeD [OF Some]
        have "findMatchingCard (grid s) (lockedCells s) (id_c k) c = Some m"
          by simp
        from pairInv_place_pair [OF inv False ne this] show ?thesis
          using nl Some by (simp add: eff)
      qed
    qed
  qed
qed

lemma pairInv_dragEnd:
  assumes inv: "pairInv (grid s) (lockedCells s)" and ne: "over \<noteq> Some []"
  shows "pairInv (grid (handleDragEnd a over s)) (lockedCells (handleDragEnd a over s))"
proof (cases over)
  case None
  then show ?thesis
    using inv by (simp add: handleDragEnd_def)
next
  case (Some c)
  then have c: "c \<noteq> []"
    using ne by simp
  show ?thesis
  proof (cases "find (\<lambda>x. id_c x = a) CARD_ICONS")
    case None
    then show ?thesis
      using inv Some by (simp add: handleDragEnd_def)
  next
    case k: (Some k)
    have "pairInv (grid (s\<lparr>selectedCard := Some k\<rparr>)) (lockedCells (s\<lparr>selectedCard := Some k\<rparr>))"
      using inv by simp
    from pairInv_click [OF this c] show ?thesis
      by (simp add: Some dragEnd_as_click [OF k])
  qed
qed

lemma pairInv_doubleClick:
  assumes inv: "pairInv (grid s) (lockedCells s)"
  shows "pairInv (grid (handleDoubleClick c s)) (lockedCells (handleDoubleClick c s))"
proof (cases "isLocked (lockedCells s) c")
  case False
  then show ?thesis
    using inv by (simp add: handleDoubleClick_def)
next
  case True
  show ?thesis
  proof (cases "map_of (grid s) c")
    case None
    then have "pairInv (grid s) (AList.delete c (lockedCells s))"
      using inv by (intro pairInv_toggle_single) simp_all
    then show ?thesis
      using True None by (simp add: handleDoubleClick_def)
  next
    case (Some k)
    show ?thesis
    proof (cases "id_c k = ''lock''")
      case lk: True
      have "pairInv (grid s) (AList.delete c (lockedCells s))"
        using inv Some lk by (intro pairInv_toggle_single) simp_all
      then show ?thesis
        using True Some lk by (simp add: handleDoubleClick_def)
    next
      case nl: False
      from pairInv_toggle_pair [OF inv True Some nl] obtain m where
        fm: "findLockedMatchingCard (grid s) (lockedCells s) (id_c k) c = Some m"
        and mne: "m \<noteq> []"
        and inv': "pairInv (grid s) (AList.delete m (AList.delete c (lockedCells s)))"
        by blast
      show ?thesis
        using True Some nl fm mne inv' by (simp add: handleDoubleClick_def)
    qed
  qed
qed

subsection \<open>Undoing history entries\<close>

lemma onlyTrue_update: "onlyTrue l \<Longrightarrow> onlyTrue (AList.update c True l)"
  by (induction l) (auto simp: onlyTrue_def)

lemma onlyTrue_delete: "onlyTrue l \<Longrightarrow> onlyTrue (AList.delete c l)"
  by (induction l) (auto simp: onlyTrue_def)

lemma onlyTrue_undoLockSet: "onlyTrue l \<Longrightarrow> onlyTrue (undoLockSet a l)"
  by (simp add: undoLockSet_def undoLocks_def onlyTrue_update onlyTrue_delete
      split: ActionType.split option.split)

lemma handleUndo_fields:
  "history s \<noteq> [] \<Longrightarrow>
   grid (handleUndo s) = undoGrid (last (history s)) (grid s)
   \<and> lockedCells (handleUndo s) = undoLockSet (last (history s)) (lockedCells s)
   \<and> history (handleUndo s) = butlast (history s)"
  by (simp add: handleUndo_def undoGrid_def undoLockSet_def Let_def
      split: ActionType.split option.split)

lemma pairInv_grid_delete:
  assumes inv: "pairInv g l" and ul: "\<not> isLocked l c"
  shows "pairInv (AList.delete c g) l"
proof (rule pairInvI)
  show "distinct (map fst (AList.delete c g))"
    using pairInv_distinct [OF inv] by (rule AList.distinct_delete)
  show "[] \<notin> fst ` set (AList.delete c g)"
    using pairInv_keys [OF inv] AList.dom_delete_subset [of c g] by blast
  show "map_of (AList.delete c g) x \<noteq> None" if "isLocked l x" for x
  proof -
    have "x \<noteq> c"
      using that ul by blast
    then show ?thesis
      using pairInv_occupied [OF inv that] by simp
  qed
  show "even (card (lockedWith (AList.delete c g) l X))" if "X \<noteq> ''lock''" for X
  proof -
    have "lockedWith (AList.delete c g) l X = lockedWith g l X"
      using ul by (auto simp: lockedWith_def AList.delete_conv')
    then show ?thesis
      using pairInv_even [OF inv that] by simp
  qed
qed

lemma pairInv_unlock_single:
  assumes inv: "pairInv g l"
    and c: "\<not> isLocked l c \<or> (\<exists>k. map_of g c = Some k \<and> id_c k = ''lock'')"
  shows "pairInv g (AList.delete c l)"
proof (rule pairInvI)
  show "distinct (map fst g)"
    using inv by (rule pairInv_distinct)
  show "[] \<notin> fst ` set g"
    using inv by (rule pairInv_keys)
  show "map_of g x \<noteq> None" if "isLocked (AList.delete c l) x" for x
    using that pairInv_occupied [OF inv, of x] by (simp add: isLocked_delete)
  show "even (card (lockedWith g (AList.delete c l) X))" if "X \<noteq> ''lock''" for X
  proof -
    have "lockedWith g (AList.delete c l) X = lockedWith g l X"
      using c that by (auto simp: lockedWith_def isLocked_delete)
    then show ?thesis
      using pairInv_even [OF inv that] by simp
  qed
qed

lemma pairInv_unlock_pair:
  assumes inv: "pairInv g l" and mc: "m \<noteq> c" and lc: "isLocked l c" and lm: "isLocked l m"
    and gc: "map_of g c = Some k" and gm: "map_of g m = Some k'" and idk: "id_c k = id_c k'"
  shows "pairInv g (AList.delete m (AList.delete c l))"
proof (rule pairInvI)
  let ?S = "lockedWith g l (id_c k)"
  show "distinct (map fst g)"
    using inv by (rule pairInv_distinct)
  show "[] \<notin> fst ` set g"
    using inv by (rule pairInv_keys)
  show "map_of g x \<noteq> None" if "isLocked (AList.delete m (AList.delete c l)) x" for x
    using that pairInv_occupied [OF inv, of x] by (simp add: isLocked_delete)
  show "even (card (lockedWith g (AList.delete m (AList.delete c l)) X))"
    if X: "X \<noteq> ''lock''" for X
  proof (cases "X = id_c k")
    case True
    have cS: "c \<in> ?S" and mS: "m \<in> ?S"
      using lc lm gc gm idk by (simp_all add: lockedWith_def)
    have "lockedWith g (AList.delete m (AList.delete c l)) (id_c k) = ?S - {c, m}"
      by (auto simp: lockedWith_def isLocked_delete)
    moreover have "card (?S - {c, m}) = card ?S - card {c, m}"
      using cS mS by (intro card_Diff_subset) auto
    moreover have "card {c, m} = 2"
      using mc by simp
    ultimately show ?thesis
      using pairInv_even [OF inv X] True by simp
  next
    case False
    have "lockedWith g (AList.delete m (AList.delete c l)) X = lockedWith g l X"
      using False gc gm idk by (auto simp: lockedWith_def isLocked_delete)
    then show ?thesis
      using pairInv_even [OF inv X] by simp
  qed
qed

lemma pairInv_undoLocks:
  assumes inv: "pairInv g l" and ok: "entryIntact a g l" and ty: "type_h a \<noteq> Remove"
  shows "pairInv g (undoLocks a l) \<and> \<not> isLocked (undoLocks a l) (cellId a)"
proof (cases "truthyId (lockedCellId a)")
  case None
  have w: "wasLocked a \<noteq> None"
    and c: "\<not> isLocked l (cellId a) \<or> (\<exists>k. map_of g (cellId a) = Some k \<and> id_c k = ''lock'')"
    using ok ty None by (auto simp: entryIntact_def split: ActionType.splits)
  have eq: "undoLocks a l = AList.delete (cellId a) l"
    using None w by (simp add: undoLocks_def)
  show ?thesis
    using pairInv_unlock_single [OF inv c] by (simp add: eq isLocked_delete)
next
  case (Some m)
  have "m \<noteq> cellId a \<and> isLocked l (cellId a) \<and> isLocked l m
      \<and> (\<exists>k k'. map_of g (cellId a) = Some k \<and> map_of g m = Some k' \<and> id_c k = id_c k')"
    using ok ty Some by (auto simp: entryIntact_def split: ActionType.splits)
  then obtain k k' where mc: "m \<noteq> cellId a" and lc: "isLocked l (cellId a)"
    and lm: "isLocked l m" and gc: "map_of g (cellId a) = Some k"
    and gm: "map_of g m = Some k'" and idk: "id_c k = id_c k'"
    by blast
  have eq: "undoLocks a l = AList.delete m (AList.delete (cellId a) l)"
    using Some by (simp add: undoLocks_def)
  show ?thesis
    using pairInv_unlock_pair [OF inv mc lc lm gc gm idk] by (simp add: eq isLocked_delete)
qed

lemma pairInv_undo:
  assumes inv: "pairInv g l" and ok: "entryIntact a g l"
  shows "pairInv (undoGrid a g) (undoLockSet a l)"
proof (cases "type_h a")
  case Remove
  have "cellId a \<noteq> []" and "wasLocked a \<noteq> Some True" and "\<not> isLocked l (cellId a)"
    using ok Remove by (simp_all add: entryIntact_def)
  then show ?thesis
    using pairInv_place_single [OF inv, of "cellId a" "card_h a"] Remove
    by (simp add: undoGrid_def undoLockSet_def)
next
  case Add
  then have "type_h a \<noteq> Remove"
    by simp
  from pairInv_undoLocks [OF inv ok this]
  have "pairInv (AList.delete (cellId a) g) (undoLocks a l)"
    using pairInv_grid_delete by blast
  then show ?thesis
    using Add by (simp add: undoGrid_def undoLockSet_def)
next
  case Replace
  show ?thesis
  proof (cases "previousCard a")
    case None
    then show ?thesis
      using inv Replace by (simp add: undoGrid_def undoLockSet_def)
  next
    case (Some p)
    have ne: "cellId a \<noteq> []"
      using ok by (simp add: entryIntact_def)
    have "type_h a \<noteq> Remove"
      using Replace by simp
    from pairInv_undoLocks [OF inv ok this]
    have "pairInv (AList.update (cellId a) p g) (undoLocks a l)"
      using pairInv_place_single ne by blast
    then show ?thesis
      using Replace Some by (simp add: undoGrid_def undoLockSet_def)
  qed
qed

lemma entryIntact_cong:
  assumes "map_of g1 = map_of g2"
  shows "entryIntact a g1 l = entryIntact a g2 l"
  unfolding entryIntact_def assms by (rule refl)

lemma undoGrid_cong:
  "map_of g1 = map_of g2 \<Longrightarrow> map_of (undoGrid a g1) = map_of (undoGrid a g2)"
  by (simp add: undoGrid_def AList.update_conv' AList.delete_conv'
      split: ActionType.split option.split)

lemma unwindOK_cong:
  "map_of g1 = map_of g2 \<Longrightarrow> unwindOK hs g1 l = unwindOK hs g2 l"
proof (induction hs arbitrary: g1 g2 l)
  case Nil
  then show ?case by simp
next
  case (Cons a hs)
  have "unwindOK hs (undoGrid a g1) (undoLockSet a l)
      = unwindOK hs (undoGrid a g2) (undoLockSet a l)"
    using Cons.prems by (intro Cons.IH undoGrid_cong)
  then show ?case
    using entryIntact_cong [OF Cons.prems] by simp
qed

lemma undo_placeEntry_grid:
  "undoGrid (placeEntry c k (map_of g c) p) (AList.update c k g) = g"
proof (cases "map_of g c")
  case None
  then have "c \<notin> fst ` set g"
    by (simp add: map_of_eq_None_iff)
  then show ?thesis
    using None by (simp add: undoGrid_def placeEntry_def delete_after_update)
next
  case (Some q)
  then show ?thesis
    by (simp add: undoGrid_def placeEntry_def AList.update_triv)
qed

lemma undo_placeEntry_locks:
  "undoLockSet (placeEntry c k (map_of g c) p) l = undoLocks (placeEntry c k (map_of g c) p) l"
  by (cases "map_of g c") (simp_all add: undoLockSet_def placeEntry_def)

lemma place_entry_data:
  assumes inv: "pairInv g l" and ot: "onlyTrue l" and ul: "\<not> isLocked l c" and ne: "c \<noteq> []"
    and p: "p = (if id_c k = ''lock'' then None
                 else truthyId (findMatchingCard g l (id_c k) c))"
    and l': "l' = (if id_c k = ''lock'' then AList.update c True l
                   else case p of
                          Some m \<Rightarrow> AList.update m True (AList.update c True l)
                        | None \<Rightarrow> l)"
  shows "entryIntact (placeEntry c k (map_of g c) p) (AList.update c k g) l'
    \<and> undoLockSet (placeEntry c k (map_of g c) p) l' = l
    \<and> onlyTrue l'"
proof (cases "id_c k = ''lock''")
  case True
  have "entryIntact (placeEntry c k (map_of g c) p) (AList.update c k g) l'"
    using True ne p l'
    by (simp add: entryIntact_def placeEntry_def AList.update_conv')
  moreover have "undoLockSet (placeEntry c k (map_of g c) p) l' = l"
    using True p l' undoLocks_place(1) [OF ot ul] by (simp add: undo_placeEntry_locks)
  moreover have "onlyTrue l'"
    using True l' ot by (simp add: onlyTrue_update)
  ultimately show ?thesis
    by blast
next
  case nl: False
  show ?thesis
  proof (cases "truthyId (findMatchingCard g l (id_c k) c)")
    case None
    then have pn: "p = None" and ll: "l' = l"
      using nl p l' by simp_all
    have "entryIntact (placeEntry c k (map_of g c) p) (AList.update c k g) l'"
      using ne ul pn ll by (simp add: entryIntact_def placeEntry_def)
    moreover have "undoLockSet (placeEntry c k (map_of g c) p) l' = l"
      using pn ll undoLocks_place(2) [OF ot ul] by (simp add: undo_placeEntry_locks)
    ultimately show ?thesis
      using ot ll by simp
  next
    case (Some m)
    then have pm: "p = Some m"
      and ll: "l' = AList.update m True (AList.update c True l)"
      using nl p l' by simp_all
    from truthyId_SomeD [OF Some]
    have fm: "findMatchingCard g l (id_c k) c = Some m" and mne: "m \<noteq> []"
      by simp_all
    from findMatchingCard_SomeD [OF fm] obtain k' where
      mc: "m \<noteq> c" and um: "\<not> isLocked l m" and mem: "(m, k') \<in> set g"
      and idk: "id_c k' = id_c k"
      by blast
    have gm: "map_of g m = Some k'"
      using pairInv_distinct [OF inv] mem by simp
    have "entryIntact (placeEntry c k (map_of g c) p) (AList.update c k g) l'"
      using ne mne mc gm idk pm ll
      by (simp add: entryIntact_def placeEntry_def AList.update_conv' isLocked_update)
    moreover have "undoLockSet (placeEntry c k (map_of g c) p) l' = l"
      using pm ll undoLocks_place(3) [OF ot ul mne mc um] by (simp add: undo_placeEntry_locks)
    moreover have "onlyTrue l'"
      using ll ot by (simp add: onlyTrue_update)
    ultimately show ?thesis
      by blast
  qed
qed

lemma traceInv_cong:
  "grid s' = grid s \<Longrightarrow> lockedCells s' = lockedCells s \<Longrightarrow> history s' = history s \<Longrightarrow>
   traceInv n s' = traceInv n s"
  by (simp add: traceInv_def)

lemma traceInv_same:
  assumes "traceInv n s" and "grid s' = grid s" and "lockedCells s' = lockedCells s"
    and "history s' = history s"
  shows "traceInv n s'" and "history s = [] \<Longrightarrow> traceInv 0 s'"
  using assms by (simp_all add: traceInv_def)

lemma traceInv_nil: "traceInv n s \<Longrightarrow> history s = [] \<Longrightarrow> traceInv 0 s"
  by (simp add: traceInv_def)

lemma traceInv_zero:
  "pairInv (grid s) (lockedCells s) \<Longrightarrow> onlyTrue (lockedCells s) \<Longrightarrow> traceInv 0 s"
  by (simp add: traceInv_def)

lemma traceInv_pairInv: "traceInv n s \<Longrightarrow> pairInv (grid s) (lockedCells s)"
  by (simp add: traceInv_def)

lemma traceInv_append:
  assumes inv: "traceInv n s"
    and pi: "pairInv g' l'" and ot: "onlyTrue l'"
    and ok: "entryIntact a g' l'"
    and ug: "map_of (undoGrid a g') = map_of (grid s)"
    and ul: "undoLockSet a l' = lockedCells s"
    and s': "grid s' = g'" "lockedCells s' = l'" "history s' = history s @ [a]"
  shows "traceInv (if history s' = [] then 0
                   else n + (length (history s') - length (history s))) s'"
proof -
  have "unwindOK (take n (rev (history s))) (undoGrid a g') (undoLockSet a l')
      = unwindOK (take n (rev (history s))) (grid s) (lockedCells s)"
    using unwindOK_cong [OF ug] by (simp add: ul)
  then have "unwindOK (take (Suc n) (rev (history s'))) g' l'"
    using inv ok by (simp add: s' traceInv_def)
  moreover have "Suc n \<le> length (history s')"
    using inv by (simp add: s' traceInv_def)
  ultimately have "traceInv (Suc n) s'"
    using pi ot by (simp add: traceInv_def s')
  then show ?thesis
    by (simp add: s')
qed

lemma traceInv_click:
  assumes inv: "traceInv n s" and ne: "c \<noteq> []"
  shows "traceInv (if history (handleCellClick c s) = [] then 0
                   else n + (length (history (handleCellClick c s)) - length (history s)))
           (handleCellClick c s)"
proof (cases "selectedCard s")
  case None
  then have "handleCellClick c s = s"
    by (simp add: handleCellClick_def)
  then show ?thesis
    using inv traceInv_nil [OF inv] by simp
next
  case (Some k)
  show ?thesis
  proof (cases "isLocked (lockedCells s) c")
    case True
    then have "handleCellClick c s = s"
      using Some by (simp add: handleCellClick_def)
    then show ?thesis
      using inv traceInv_nil [OF inv] by simp
  next
    case False
    define p where "p = (if id_c k = ''lock'' then None
        else truthyId (findMatchingCard (grid s) (lockedCells s) (id_c k) c))"
    define l' where "l' = (if id_c k = ''lock'' then AList.update c True (lockedCells s)
        else case p of
               Some m \<Rightarrow> AList.update m True (AList.update c True (lockedCells s))
             | None \<Rightarrow> lockedCells s)"
    have eff: "grid (handleCellClick c s) = AList.update c k (grid s)"
      "lockedCells (handleCellClick c s) = l'"
      "history (handleCellClick c s)
         = history s @ [placeEntry c k (map_of (grid s) c) p]"
      using click_effect [OF Some False] by (simp_all add: Let_def p_def l'_def)
    have pi: "pairInv (AList.update c k (grid s)) l'"
      using pairInv_click [OF traceInv_pairInv [OF inv] ne] by (simp add: eff)
    have ot: "onlyTrue (lockedCells s)"
      using inv by (simp add: traceInv_def)
    from place_entry_data [OF traceInv_pairInv [OF inv] ot False ne p_def l'_def]
    have ok: "entryIntact (placeEntry c k (map_of (grid s) c) p) (AList.update c k (grid s)) l'"
      and ul: "undoLockSet (placeEntry c k (map_of (grid s) c) p) l' = lockedCells s"
      and ot': "onlyTrue l'"
      by blast+
    have ug: "map_of (undoGrid (placeEntry c k (map_of (grid s) c) p) (AList.update c k (grid s)))
        = map_of (grid s)"
      by (simp add: undo_placeEntry_grid)
    show ?thesis
      using inv pi ot' ok ug ul eff by (rule traceInv_append)
  qed
qed

lemma traceInv_dragEnd:
  assumes inv: "traceInv n s" and ne: "over \<noteq> Some []"
  shows "traceInv (if history (handleDragEnd a over s) = [] then 0
                   else n + (length (history (handleDragEnd a over s)) - length (history s)))
           (handleDragEnd a over s)"
proof (cases over)
  case None
  then have "handleDragEnd a over s = s\<lparr>activeCard := None\<rparr>"
    by (simp add: handleDragEnd_def)
  then show ?thesis
    using traceInv_same [OF inv, of "s\<lparr>activeCard := None\<rparr>"] by simp
next
  case (Some c)
  then have c: "c \<noteq> []"
    using ne by simp
  show ?thesis
  proof (cases "find (\<lambda>x. id_c x = a) CARD_ICONS")
    case None
    then have "handleDragEnd a over s = s\<lparr>activeCard := None\<rparr>"
      using Some by (simp add: handleDragEnd_def)
    then show ?thesis
      using traceInv_same [OF inv, of "s\<lparr>activeCard := None\<rparr>"] by simp
  next
    case k: (Some k)
    let ?s2 = "s\<lparr>selectedCard := Some k\<rparr>"
    let ?t = "handleCellClick c ?s2"
    have "traceInv n ?s2"
      using inv by (simp add: traceInv_def)
    from traceInv_click [OF this c]
    have t: "traceInv (if history ?t = [] then 0
        else n + (length (history ?t) - length (history s))) ?t"
      by (simp split: if_splits)
    have eq: "handleDragEnd a over s = ?t\<lparr>selectedCard := selectedCard s, activeCard := None\<rparr>"
      using Some dragEnd_as_click [OF k] by simp
    show ?thesis
      unfolding eq using t by (simp add: traceInv_def split: if_splits)
  qed
qed

lemma traceInv_remove:
  assumes inv: "traceInv n s" and ok: "\<not> removeFindsLocked s c"
  shows "traceInv (if history (handleRemoveCard c s) = [] then 0
                   else n + (length (history (handleRemoveCard c s)) - length (history s)))
           (handleRemoveCard c s)"
proof (cases "map_of (grid s) c")
  case None
  then have "handleRemoveCard c s = s"
    by (simp add: handleRemoveCard_def)
  then show ?thesis
    using inv traceInv_nil [OF inv] by simp
next
  case (Some k)
  show ?thesis
  proof (cases "isLocked (lockedCells s) c")
    case True
    then have "handleRemoveCard c s = s"
      using Some by (simp add: handleRemoveCard_def)
    then show ?thesis
      using inv traceInv_nil [OF inv] by simp
  next
    case False
    have nf: "truthyId (findLockedMatchingCard (grid s) (lockedCells s) (id_c k) c) = None"
      using ok Some False by (simp add: removeFindsLocked_def)
    let ?a = "\<lparr>type_h = Remove, cellId = c, card_h = k, previousCard = None,
      lockedCellId = None, wasLocked = Some False\<rparr>"
    have eff: "grid (handleRemoveCard c s) = AList.delete c (grid s)"
      "lockedCells (handleRemoveCard c s) = lockedCells s"
      "history (handleRemoveCard c s) = history s @ [?a]"
      using Some False nf by (simp_all add: handleRemoveCard_def Let_def)
    have pinv: "pairInv (grid s) (lockedCells s)"
      using inv by (rule traceInv_pairInv)
    have pi: "pairInv (AList.delete c (grid s)) (lockedCells s)"
      using pinv False by (rule pairInv_grid_delete)
    have ot: "onlyTrue (lockedCells s)"
      using inv by (simp add: traceInv_def)
    have "(c, k) \<in> set (grid s)"
      using Some by (rule map_of_SomeD)
    then have "c \<in> fst ` set (grid s)"
      by (rule image_eqI [rotated]) simp
    then have cne: "c \<noteq> []"
      using pairInv_keys [OF pinv] by metis
    have intact: "entryIntact ?a (AList.delete c (grid s)) (lockedCells s)"
      using cne False by (simp add: entryIntact_def)
    have ug: "map_of (undoGrid ?a (AList.delete c (grid s))) = map_of (grid s)"
      using Some by (auto simp: undoGrid_def AList.update_conv' AList.delete_conv')
    have ul: "undoLockSet ?a (lockedCells s) = lockedCells s"
      by (simp add: undoLockSet_def)
    show ?thesis
      using inv pi ot intact ug ul eff by (rule traceInv_append)
  qed
qed

lemma traceInv_doubleClick:
  assumes inv: "traceInv n s"
  shows "traceInv (if isLocked (lockedCells s) c \<or> history (handleDoubleClick c s) = [] then 0
                   else n + (length (history (handleDoubleClick c s)) - length (history s)))
           (handleDoubleClick c s)"
proof (cases "isLocked (lockedCells s) c")
  case False
  then have "handleDoubleClick c s = s"
    by (simp add: handleDoubleClick_def)
  then show ?thesis
    using False inv traceInv_nil [OF inv] by simp
next
  case True
  have pi: "pairInv (grid (handleDoubleClick c s)) (lockedCells (handleDoubleClick c s))"
    using traceInv_pairInv [OF inv] by (rule pairInv_doubleClick)
  have "onlyTrue (lockedCells s)"
    using inv by (simp add: traceInv_def)
  then have ot: "onlyTrue (lockedCells (handleDoubleClick c s))"
    by (simp add: handleDoubleClick_def Let_def onlyTrue_delete split: option.split)
  show ?thesis
    using True traceInv_zero [OF pi ot] by simp
qed

lemma traceInv_undo:
  assumes inv: "traceInv n s" and ok: "0 < n \<or> history s = []"
  shows "traceInv (if history (handleUndo s) = [] then 0 else n - 1) (handleUndo s)"
proof (cases "history s = []")
  case True
  then have "handleUndo s = s"
    by (simp add: handleUndo_def)
  then show ?thesis
    using True traceInv_nil [OF inv] by simp
next
  case False
  then have pos: "0 < n"
    using ok by blast
  then obtain j where n: "n = Suc j"
    by (cases n) simp_all
  let ?a = "last (history s)"
  note f = handleUndo_fields [OF False]
  have rv: "rev (history s) = ?a # rev (butlast (history s))"
    using False by (metis append_butlast_last_id rev_append rev_singleton_conv append_Cons append_Nil)
  have uw: "unwindOK (take n (rev (history s))) (grid s) (lockedCells s)"
    using inv by (simp add: traceInv_def)
  then have intact: "entryIntact ?a (grid s) (lockedCells s)"
    and rest: "unwindOK (take j (rev (butlast (history s))))
      (undoGrid ?a (grid s)) (undoLockSet ?a (lockedCells s))"
    by (simp_all add: n rv)
  have pi: "pairInv (undoGrid ?a (grid s)) (undoLockSet ?a (lockedCells s))"
    using traceInv_pairInv [OF inv] intact by (rule pairInv_undo)
  have ot: "onlyTrue (undoLockSet ?a (lockedCells s))"
    using inv by (simp add: traceInv_def onlyTrue_undoLockSet)
  have "Suc j \<le> length (history s)"
    using inv n by (simp add: traceInv_def)
  then have le: "j \<le> length (butlast (history s))"
    by simp
  have t: "traceInv j (handleUndo s)"
    using pi ot le rest by (simp add: traceInv_def f)
  then show ?thesis
    using traceInv_nil [OF t] by (simp add: n)
qed

lemma traceInv_step:
  assumes inv: "traceInv n s" and ok: "pairingEvent n s e"
  shows "traceInv (undoDepth n s e) (step s e)"
proof (cases e)
  case (CardClick k)
  then show ?thesis
    using traceInv_same [OF inv, of "handleCardClick k s"]
    by (simp add: undoDepth_def unlocksCell_def handleCardClick_def)
next
  case (CellClick c)
  then show ?thesis
    using traceInv_click [OF inv, of c] ok
    by (simp add: undoDepth_def unlocksCell_def split: if_splits)
next
  case (DragStart a)
  then show ?thesis
    using traceInv_same [OF inv, of "handleDragStart a s"]
    by (simp add: undoDepth_def unlocksCell_def handleDragStart_def)
next
  case (DragEnd a over)
  then show ?thesis
    using traceInv_dragEnd [OF inv, of over a] ok
    by (simp add: undoDepth_def unlocksCell_def split: if_splits)
next
  case (RemoveCard c)
  then show ?thesis
    using traceInv_remove [OF inv, of c] ok
    by (simp add: undoDepth_def unlocksCell_def split: if_splits)
next
  case (DoubleClick c)
  then show ?thesis
    using traceInv_doubleClick [OF inv, of c]
    by (auto simp: undoDepth_def unlocksCell_def split: if_splits)
next
  case Undo
  then show ?thesis
    using traceInv_undo [OF inv] ok
    by (simp add: undoDepth_def unlocksCell_def split: if_splits)
next
  case Reset
  have "traceInv 0 (handleReset s)"
    by (rule traceInv_zero) (simp_all add: handleReset_def pairInv_empty onlyTrue_def)
  then show ?thesis
    using Reset by (simp add: undoDepth_def unlocksCell_def handleReset_def)
next
  case (LayoutChange r c)
  have same: "grid (handleLayoutChange r c s) = grid s"
    "lockedCells (handleLayoutChange r c s) = lockedCells s"
    "history (handleLayoutChange r c s) = history s"
    by (simp_all add: handleLayoutChange_def)
  show ?thesis
    using LayoutChange traceInv_same [OF inv same]
    by (simp add: undoDepth_def unlocksCell_def same)
next
  case ConfirmLayout
  show ?thesis
  proof (cases "pendingLayout s")
    case None
    then show ?thesis
      using ConfirmLayout traceInv_same [OF inv, of "confirmLayoutChange s"]
      by (simp add: undoDepth_def unlocksCell_def confirmLayoutChange_def)
  next
    case (Some rc)
    have "traceInv 0 (confirmLayoutChange s)"
      using Some
      by (intro traceInv_zero)
        (simp_all add: confirmLayoutChange_def pairInv_empty onlyTrue_def split: prod.split)
    then show ?thesis
      using ConfirmLayout Some
      by (simp add: undoDepth_def unlocksCell_def confirmLayoutChange_def split: prod.split)
  qed
next
  case CancelLayout
  then show ?thesis
    using traceInv_same [OF inv, of "cancelLayoutChange s"]
    by (simp add: undoDepth_def unlocksCell_def cancelLayoutChange_def)
qed

lemma traceInv_run:
  "traceInv n s \<Longrightarrow> pairingTrace n s es \<Longrightarrow> pairInv (grid (run s es)) (lockedCells (run s es))"
proof (induction es arbitrary: n s)
  case Nil
  then show ?case
    by (simp add: run_def traceInv_pairInv)
next
  case (Cons e es)
  have "traceInv (undoDepth n s e) (step s e)"
    using Cons.prems by (intro traceInv_step) simp_all
  moreover have "pairingTrace (undoDepth n s e) (step s e) es"
    using Cons.prems(2) by simp
  ultimately have "pairInv (grid (run (step s e) es)) (lockedCells (run (step s e) es))"
    by (rule Cons.IH)
  then show ?case
    by (simp add: run_def)
qed

subsection \<open>Reachable states\<close>

text \<open>
  C2, as the code has it. Take any trace of events from the initial state, on cells whose
  key is not the empty string, in which no removal finds a locked cell holding a card
  with the same id and no undo undoes a history entry that was recorded before a double
  click that unlocked a cell. In the state it reaches pairing symmetry holds: every
  locked cell holds a card that is the lock token or has the id of the card of another
  locked cell.
\<close>

theorem pairing_symmetry_reachable:
  assumes "pairingTrace 0 initState es"
  shows "pairingSymmetry (run initState es)"
proof -
  have "traceInv 0 initState"
    by (rule traceInv_zero) (simp_all add: initState_def pairInv_empty onlyTrue_def)
  from traceInv_run [OF this assms] show ?thesis
    by (rule pairInv_pairing)
qed

theorem pairing_symmetry_reachable_witness:
  "pairingTrace 0 initState mixedTrace
   \<and> isLocked (lockedCells (run initState mixedTrace)) ''cell-3''
   \<and> isLocked (lockedCells (run initState mixedTrace)) ''cell-0''
   \<and> pairingSymmetry (run initState mixedTrace)"
proof -
  have h: "pairingTrace 0 initState mixedTrace"
    by code_simp
  have l: "isLocked (lockedCells (run initState mixedTrace)) ''cell-3''
      \<and> isLocked (lockedCells (run initState mixedTrace)) ''cell-0''"
    by code_simp
  from pairing_symmetry_reachable [OF h] h l show ?thesis
    by blast
qed

text \<open>
  In particular pairing symmetry holds after every trace of placements, undos, resets
  and layout changes: without a removal and a double click every undo is allowed.
\<close>

lemma history_click:
  "history (handleCellClick c s) = history s
   \<or> (\<exists>a. history (handleCellClick c s) = history s @ [a])"
  by (simp add: handleCellClick_def Let_def split: option.split)

lemma history_dragEnd:
  "history (handleDragEnd a over s) = history s
   \<or> (\<exists>b. history (handleDragEnd a over s) = history s @ [b])"
  by (simp add: handleDragEnd_def Let_def split: option.split)

lemma history_undo: "history (handleUndo s) = butlast (history s)"
  by (simp add: handleUndo_def Let_def)

lemma placeUndo_depth:
  assumes "placeUndoEvent e"
  shows "pairingEvent (length (history s)) s e
    \<and> undoDepth (length (history s)) s e = length (history (step s e))"
proof (cases e)
  case (CardClick k)
  then show ?thesis
    by (simp add: undoDepth_def unlocksCell_def handleCardClick_def)
next
  case (CellClick c)
  then show ?thesis
    using assms history_click [of c s] by (auto simp: undoDepth_def unlocksCell_def)
next
  case (DragStart a)
  then show ?thesis
    by (simp add: undoDepth_def unlocksCell_def handleDragStart_def)
next
  case (DragEnd a over)
  then show ?thesis
    using assms history_dragEnd [of a over s] by (auto simp: undoDepth_def unlocksCell_def)
next
  case (RemoveCard c)
  then show ?thesis using assms by simp
next
  case (DoubleClick c)
  then show ?thesis using assms by simp
next
  case Undo
  have hl: "length (history (handleUndo s)) = length (history s) - 1"
    by (simp add: history_undo)
  have "undoDepth (length (history s)) s Undo = length (history (handleUndo s))"
    by (cases "history (handleUndo s) = []") (simp_all add: undoDepth_def unlocksCell_def hl)
  then show ?thesis
    using Undo by auto
next
  case Reset
  then show ?thesis
    by (simp add: undoDepth_def unlocksCell_def handleReset_def)
next
  case (LayoutChange r c)
  then show ?thesis
    by (simp add: undoDepth_def unlocksCell_def handleLayoutChange_def)
next
  case ConfirmLayout
  then show ?thesis
    by (simp add: undoDepth_def unlocksCell_def confirmLayoutChange_def
        split: option.split prod.split)
next
  case CancelLayout
  then show ?thesis
    by (simp add: undoDepth_def unlocksCell_def cancelLayoutChange_def)
qed

lemma pairingTrace_place_undo:
  "\<forall>e \<in> set es. placeUndoEvent e \<Longrightarrow> pairingTrace (length (history s)) s es"
proof (induction es arbitrary: s)
  case Nil
  then show ?case by simp
next
  case (Cons e es)
  have e: "placeUndoEvent e"
    using Cons.prems by simp
  have "pairingTrace (length (history (step s e))) (step s e) es"
    using Cons.prems by (intro Cons.IH) simp
  then show ?case
    using placeUndo_depth [OF e, of s] by simp
qed

lemma pairing_symmetry_place_undo:
  assumes "\<forall>e \<in> set es. placeUndoEvent e"
  shows "pairingSymmetry (run initState es)"
proof -
  have i: "traceInv 0 initState"
    by (rule traceInv_zero) (simp_all add: initState_def pairInv_empty onlyTrue_def)
  have "pairingTrace (length (history initState)) initState es"
    using assms by (rule pairingTrace_place_undo)
  then have "pairingTrace 0 initState es"
    by (simp add: initState_def)
  from traceInv_run [OF i this] show ?thesis
    by (rule pairInv_pairing)
qed

text \<open>
  The claim C2 over all the operations fails. After the three wine cards, removing the
  card of \<open>cell-2\<close> unlocks \<open>cell-0\<close> and leaves \<open>cell-1\<close> locked alone. And after a
  fourth wine card on \<open>cell-3\<close>, which pairs with \<open>cell-2\<close>, a double click on \<open>cell-2\<close>
  unlocks \<open>cell-2\<close> and \<open>cell-0\<close>; the undo of the fourth placement then unlocks
  \<open>cell-3\<close> and leaves \<open>cell-1\<close> locked alone.
\<close>

theorem pairing_symmetry_counterexample:
  "\<not> pairingSymmetry (run initState (placeThreeWines @ [RemoveCard ''cell-2'']))
   \<and> \<not> pairingSymmetry
        (run initState
           (placeThreeWines @
              [CardClick wineCard, CellClick ''cell-3'', DoubleClick ''cell-2'', Undo]))"
proof -
  let ?r = "run initState (placeThreeWines @ [RemoveCard ''cell-2''])"
  let ?u = "run initState
    (placeThreeWines @ [CardClick wineCard, CellClick ''cell-3'', DoubleClick ''cell-2'', Undo])"
  have rg: "grid ?r = [(''cell-0'', wineCard), (''cell-1'', wineCard)]"
    by code_simp
  have rl: "lockedCells ?r = [(''cell-1'', True)]"
    by code_simp
  have ug: "grid ?u = [(''cell-0'', wineCard), (''cell-1'', wineCard), (''cell-2'', wineCard)]"
    by code_simp
  have ul: "lockedCells ?u = [(''cell-1'', True)]"
    by code_simp
  have r: "\<not> pairingSymmetry ?r"
  proof
    assume "pairingSymmetry ?r"
    then have "isLocked (lockedCells ?r) ''cell-1'' \<longrightarrow>
        (\<exists>k. map_of (grid ?r) ''cell-1'' = Some k
          \<and> (id_c k = ''lock''
             \<or> (\<exists>c' k'. c' \<noteq> ''cell-1'' \<and> map_of (grid ?r) c' = Some k' \<and> id_c k' = id_c k
                  \<and> isLocked (lockedCells ?r) c')))"
      unfolding pairingSymmetry_def by (rule spec)
    then show False
      unfolding rg rl by (auto simp: isLocked_def wineCard_def split: if_splits)
  qed
  have u: "\<not> pairingSymmetry ?u"
  proof
    assume "pairingSymmetry ?u"
    then have "isLocked (lockedCells ?u) ''cell-1'' \<longrightarrow>
        (\<exists>k. map_of (grid ?u) ''cell-1'' = Some k
          \<and> (id_c k = ''lock''
             \<or> (\<exists>c' k'. c' \<noteq> ''cell-1'' \<and> map_of (grid ?u) c' = Some k' \<and> id_c k' = id_c k
                  \<and> isLocked (lockedCells ?u) c')))"
      unfolding pairingSymmetry_def by (rule spec)
    then show False
      unfolding ug ul by (auto simp: isLocked_def wineCard_def split: if_splits)
  qed
  show ?thesis
    using r u by blast
qed

text \<open>
  Both traces are outside the traces of C2: the first at its removal, the second at its
  undo.
\<close>

lemma counterexample_traces_excluded:
  "\<not> pairingTrace 0 initState (placeThreeWines @ [RemoveCard ''cell-2''])"
  "\<not> pairingTrace 0 initState
        (placeThreeWines @ [CardClick wineCard, CellClick ''cell-3'', DoubleClick ''cell-2'', Undo])"
  by code_simp+

end
